theory Spec2Isabelle
  imports Main "HOL-Library.Sublist"
begin

section \<open>Strings and paths\<close>

text \<open>
  A Python \<open>str\<close> is a sequence of Unicode code points; it is modelled as a list of
  natural numbers, one per code point. The literals of \<open>generate_cookiecutter.py\<close> are
  ASCII (one emoji in the README rule apart) and are written \<open>S ''...''\<close>.
\<close>

type_synonym pystr = "nat list"

definition S :: "string \<Rightarrow> pystr" where
  "S s = map of_char s"

text \<open>
  A \<open>pathlib\<close> POSIX path: whether it is anchored at the root, and its segments.
  \<open>parts\<close>, \<open>str(path)\<close> and \<open>path.name\<close> are the attributes the script reads.
  \<open>Path(".")\<close> is the relative path with no segment.
\<close>

record ppath =
  absolute :: bool
  segs :: "pystr list"

definition rel :: "pystr list \<Rightarrow> ppath" where
  "rel xs = \<lparr>absolute = False, segs = xs\<rparr>"

definition parts :: "ppath \<Rightarrow> pystr list" where
  "parts p = (if absolute p then [S ''/''] else []) @ segs p"

fun join_with :: "pystr \<Rightarrow> pystr list \<Rightarrow> pystr" where
  "join_with sep [] = []"
| "join_with sep [x] = x"
| "join_with sep (x # y # ys) = x @ sep @ join_with sep (y # ys)"

definition path_str :: "ppath \<Rightarrow> pystr" where
  "path_str p =
     (if absolute p then S ''/'' @ join_with (S ''/'') (segs p)
      else if segs p = [] then S ''.''
      else join_with (S ''/'') (segs p))"

definition name :: "ppath \<Rightarrow> pystr" where
  "name p = (if segs p = [] then [] else last (segs p))"

text \<open>
  The file system the script works in, keyed by the path as the script writes it: a
  path holds a regular file, a directory, or nothing. Of a regular file the model
  keeps the bytes and one permission: whether the file may be executed, which is what
  \<open>os.access(path, os.X_OK)\<close> answers and what \<open>st_mode | 0o111\<close> grants. Symbolic
  links and special files are not modelled, and paths are compared as they are
  written (no path of the script has a \<open>..\<close> segment). The current directory and the
  root (the paths with no segment) are directories that always exist.
\<close>

datatype node = FileNode "nat list" bool | DirNode

type_synonym filesystem = "ppath \<Rightarrow> node option"

definition lookup :: "filesystem \<Rightarrow> ppath \<Rightarrow> node option" where
  "lookup fs p = (if segs p = [] then Some DirNode else fs p)"

definition is_dir :: "filesystem \<Rightarrow> ppath \<Rightarrow> bool" where
  "is_dir fs p = (lookup fs p = Some DirNode)"

definition is_file :: "filesystem \<Rightarrow> ppath \<Rightarrow> bool" where
  "is_file fs p = (case lookup fs p of Some (FileNode b x) \<Rightarrow> True | _ \<Rightarrow> False)"

definition parent :: "ppath \<Rightarrow> ppath" where
  "parent p = p\<lparr>segs := butlast (segs p)\<rparr>"

section \<open>Path Classifier: \<open>should_exclude\<close>\<close>

definition EXCLUDE_PATTERNS :: "pystr list" where
  "EXCLUDE_PATTERNS =
     [S ''.git'', S ''.gitignore'', S ''__pycache__'', S ''.pytest_cache'',
      S ''.mypy_cache'', S ''.venv'', S ''venv'', S ''poetry.lock'', S ''mypy.ini'',
      S ''cookiecutter-output'', S ''generate_cookiecutter.py'',
      S ''COOKIECUTTER_README.md'', S ''.ruff_cache'', S ''.vscode'', S ''.idea'',
      S ''*.pyc'', S ''*.pyo'', S ''*.pyd'', S ''.Python'', S ''pip-log.txt'',
      S ''pip-delete-this-directory.txt'', S ''.coverage'', S ''htmlcov'', S ''.tox'',
      S ''.DS_Store'', S ''.approval_tests_temp'', S ''.approval_tests_cache'',
      S ''approved_files'', S ''received_files'']"

text \<open>
  \<open>fnmatch.fnmatchcase(name, pat)\<close> for patterns built from literal characters,
  \<open>*\<close> (code point 42, any run of characters) and \<open>?\<close> (63, any one character).
  Bracket sets do not occur in the patterns of the script and are not modelled.
\<close>

fun fnmatchcase :: "pystr \<Rightarrow> pystr \<Rightarrow> bool" where
  "fnmatchcase [] [] = True"
| "fnmatchcase (c # cs) [] = False"
| "fnmatchcase [] (p # ps) = (p = 42 \<and> fnmatchcase [] ps)"
| "fnmatchcase (c # cs) (p # ps) =
     (if p = 42 then fnmatchcase (c # cs) ps \<or> fnmatchcase cs (p # ps)
      else if p = 63 then fnmatchcase cs ps
      else c = p \<and> fnmatchcase cs ps)"

text \<open>
  \<open>path.match(pattern)\<close> for a relative pattern of one component (the three glob
  patterns of the script are \<open>*.pyc\<close>, \<open>*.pyo\<close>, \<open>*.pyd\<close>): the last part of the
  path is matched against the pattern.
\<close>

definition path_match :: "ppath \<Rightarrow> pystr \<Rightarrow> bool" where
  "path_match p pat = (parts p \<noteq> [] \<and> fnmatchcase (last (parts p)) pat)"

text \<open>\<open>list.index(x)\<close>: the position of the first occurrence.\<close>

definition index_of :: "'a \<Rightarrow> 'a list \<Rightarrow> nat" where
  "index_of x xs = length (takeWhile (\<lambda>y. y \<noteq> x) xs)"

text \<open>
  Line 89: \<open>".git" in path.parts and path.parts[path.parts.index(".git") + 1:]\<close>.
\<close>

definition inside_git :: "ppath \<Rightarrow> bool" where
  "inside_git p =
     (S ''.git'' \<in> set (parts p) \<and>
      drop (index_of (S ''.git'') (parts p) + 1) (parts p) \<noteq> [])"

text \<open>
  The loop of lines 100 to 109 over the patterns. The script iterates a set, in no
  fixed order; the loop returns True as soon as one pattern matches and False after
  the last one, so the order does not change the result (see \<open>match_patterns_iff\<close>).
\<close>

fun match_patterns :: "ppath \<Rightarrow> pystr list \<Rightarrow> bool" where
  "match_patterns p [] = False"
| "match_patterns p (pattern # rest) =
     (if pattern = S ''.git'' then match_patterns p rest
      else if sublist pattern (path_str p) \<or> name p = pattern then True
      else if 42 \<in> set pattern \<and> path_match p pattern then True
      else match_patterns p rest)"

definition should_exclude :: "filesystem \<Rightarrow> ppath \<Rightarrow> bool" where
  "should_exclude fs p =
     (if name p = S ''.git'' \<and> is_dir fs p then True
      else if inside_git p then True
      else if S ''scratchpads'' \<in> set (parts p) \<and> is_file fs p then
        (if name p = S ''.gitignore'' then False else True)
      else match_patterns p EXCLUDE_PATTERNS)"

section \<open>Path Rewriter: \<open>get_template_path\<close>\<close>

datatype error =
    IndexError | ValueError | UnicodeEncodeError
  | FileNotFoundError | FileExistsError | NotADirectoryError | IsADirectoryError
  | SameFileError

definition TEMPLATE_ROOT :: ppath where
  "TEMPLATE_ROOT = rel [S ''cookiecutter-output'', S ''{{cookiecutter.project_slug}}'']"

definition DIRECTORY_RENAMES :: "(pystr \<times> pystr) list" where
  "DIRECTORY_RENAMES =
     [(S ''template_core'', S ''{{cookiecutter.project_slug}}_core''),
      (S ''template_tools'', S ''{{cookiecutter.project_slug}}_tools'')]"

text \<open>Lines 123 to 126: one step of the loop over the parts.\<close>

definition rename_part :: "pystr \<Rightarrow> pystr" where
  "rename_part part =
     (case map_of DIRECTORY_RENAMES part of Some r \<Rightarrow> r | None \<Rightarrow> part)"

text \<open>
  \<open>Path(*new_parts)\<close> for parts that came from \<open>path.parts\<close>: a leading \<open>/\<close> part
  anchors the path, the other parts are its segments. \<open>a / b\<close> appends the segments
  of a relative \<open>b\<close> and is \<open>b\<close> itself when \<open>b\<close> is absolute.
\<close>

definition path_of_parts :: "pystr list \<Rightarrow> ppath" where
  "path_of_parts ps =
     (case ps of
        [] \<Rightarrow> rel []
      | x # xs \<Rightarrow> if x = S ''/'' then \<lparr>absolute = True, segs = xs\<rparr> else rel ps)"

definition path_join :: "ppath \<Rightarrow> ppath \<Rightarrow> ppath" where
  "path_join a b =
     (if absolute b then b else \<lparr>absolute = absolute a, segs = segs a @ segs b\<rparr>)"

text \<open>
  \<open>parts[0]\<close> on line 117 raises IndexError when the path has no part, which is the
  case of \<open>Path(".")\<close>; the error is a value of the model.
\<close>

definition get_template_path :: "ppath \<Rightarrow> error + ppath" where
  "get_template_path source_path =
     (let ps = parts source_path in
      if ps = [] then Inl IndexError
      else
        let ps' = (if hd ps = S ''.'' then tl ps else ps);
            new_parts = map rename_part ps'
        in if new_parts \<noteq> [] then Inr (path_join TEMPLATE_ROOT (path_of_parts new_parts))
           else Inr TEMPLATE_ROOT)"

section \<open>Regular expressions and \<open>re.sub\<close>\<close>

text \<open>
  The classes \<open>\w\<close> and \<open>\d\<close> of a \<open>str\<close> pattern follow the Unicode database of the
  interpreter: \<open>\w\<close> is \<open>str.isalnum\<close> or the underscore, \<open>\d\<close> is a decimal digit.
  For ASCII they are fixed below; for the other code points the database is a
  parameter of the model.
\<close>

record ucd =
  uni_alnum :: "nat \<Rightarrow> bool"
  uni_decimal :: "nat \<Rightarrow> bool"

definition is_decimal :: "ucd \<Rightarrow> nat \<Rightarrow> bool" where
  "is_decimal U c = (if c < 128 then 48 \<le> c \<and> c \<le> 57 else uni_decimal U c)"

definition is_alnum :: "ucd \<Rightarrow> nat \<Rightarrow> bool" where
  "is_alnum U c =
     (if c < 128 then (48 \<le> c \<and> c \<le> 57) \<or> (65 \<le> c \<and> c \<le> 90) \<or> (97 \<le> c \<and> c \<le> 122)
      else uni_alnum U c)"

definition word_char :: "ucd \<Rightarrow> nat \<Rightarrow> bool" where
  "word_char U c = (is_alnum U c \<or> c = 95)"

text \<open>
  The patterns of the script are sequences of: a literal character (escaped or
  not), one of the classes \<open>\w\<close>, \<open>\d\<close>, \<open>[^"]\<close> under a greedy \<open>+\<close>, the word
  boundary \<open>\b\<close>, and \<open>^\<close> under \<open>re.MULTILINE\<close>.
\<close>

datatype cls = Word | Digit | NotQuote

fun in_cls :: "ucd \<Rightarrow> cls \<Rightarrow> nat \<Rightarrow> bool" where
  "in_cls U Word c = word_char U c"
| "in_cls U Digit c = is_decimal U c"
| "in_cls U NotQuote c = (c \<noteq> 34)"

datatype atom = Chr nat | Plus cls | WordBoundary | LineStart

definition lit :: "pystr \<Rightarrow> atom list" where
  "lit s = map Chr s"

text \<open>The greedy \<open>+\<close> tries the longest run first and backs off one character at a time.\<close>

fun first_down :: "(nat \<Rightarrow> nat option) \<Rightarrow> nat \<Rightarrow> nat option" where
  "first_down f 0 = None"
| "first_down f (Suc k) = (case f (Suc k) of Some r \<Rightarrow> Some r | None \<Rightarrow> first_down f k)"

definition word_opt :: "ucd \<Rightarrow> nat option \<Rightarrow> bool" where
  "word_opt U x = (case x of None \<Rightarrow> False | Some c \<Rightarrow> word_char U c)"

definition first_char :: "pystr \<Rightarrow> nat option" where
  "first_char s = (case s of [] \<Rightarrow> None | c # _ \<Rightarrow> Some c)"

text \<open>
  \<open>rmatch U pat prev s\<close>: the pattern matched at the current position, where \<open>s\<close> is
  the rest of the string and \<open>prev\<close> the character before it (None at the start of
  the string); the result is the number of characters of the match the
  backtracking matcher finds first.
\<close>

fun rmatch :: "ucd \<Rightarrow> atom list \<Rightarrow> nat option \<Rightarrow> pystr \<Rightarrow> nat option" where
  "rmatch U [] prev s = Some 0"
| "rmatch U (Chr c # pat) prev s =
     (case s of
        [] \<Rightarrow> None
      | x # xs \<Rightarrow> if x = c then map_option Suc (rmatch U pat (Some x) xs) else None)"
| "rmatch U (Plus C # pat) prev s =
     first_down
       (\<lambda>k. map_option (\<lambda>n. k + n) (rmatch U pat (Some (s ! (k - 1))) (drop k s)))
       (length (takeWhile (in_cls U C) s))"
| "rmatch U (WordBoundary # pat) prev s =
     (if word_opt U prev \<noteq> word_opt U (first_char s) then rmatch U pat prev s else None)"
| "rmatch U (LineStart # pat) prev s =
     (if prev = None \<or> prev = Some 10 then rmatch U pat prev s else None)"

text \<open>
  \<open>re.sub(pattern, repl, content)\<close>: leftmost matches, not overlapping, each
  replaced by \<open>repl\<close> (no replacement of the script has a backslash or a group
  reference). Every pattern of the script holds a literal character, so no match
  is empty; an empty match counts as none here.
\<close>

function re_sub :: "ucd \<Rightarrow> atom list \<Rightarrow> pystr \<Rightarrow> nat option \<Rightarrow> pystr \<Rightarrow> pystr" where
  "re_sub U pat repl prev [] = []"
| "re_sub U pat repl prev (c # cs) =
     (case rmatch U pat prev (c # cs) of
        Some (Suc n) \<Rightarrow> repl @ re_sub U pat repl (Some ((c # cs) ! n)) (drop n cs)
      | _ \<Rightarrow> c # re_sub U pat repl (Some c) cs)"
  by pat_completeness auto
termination
  by (relation "measure (\<lambda>(U, pat, repl, prev, s). length s)") auto

text \<open>
  \<open>content.replace(old, new)\<close> for a non-empty \<open>old\<close> (the only call of the script
  replaces \<open>${#\<close>).
\<close>

function str_replace :: "pystr \<Rightarrow> pystr \<Rightarrow> pystr \<Rightarrow> pystr" where
  "str_replace old new [] = []"
| "str_replace old new (c # cs) =
     (if old \<noteq> [] \<and> prefix old (c # cs)
      then new @ str_replace old new (drop (length old) (c # cs))
      else c # str_replace old new cs)"
  by pat_completeness auto
termination
  by (relation "measure (\<lambda>(old, new, s). length s)") (auto simp: neq_Nil_conv)

text \<open>A run of \<open>content = re.sub(p, r, content)\<close> statements, in order.\<close>

fun apply_rules :: "ucd \<Rightarrow> (atom list \<times> pystr) list \<Rightarrow> pystr \<Rightarrow> pystr" where
  "apply_rules U [] content = content"
| "apply_rules U ((p, r) # rules) content = apply_rules U rules (re_sub U p r None content)"

section \<open>Content Transformer: \<open>process_text_content\<close>\<close>

text \<open>
  The rule lists of the branches of \<open>process_text_content\<close>, each pair a pattern and
  its replacement, in the order of the \<open>re.sub\<close> calls. Code point 128230 is the
  package emoji of the README notice, 10 is the newline.
\<close>

definition pyproject_rules :: "(atom list \<times> pystr) list" where
  \<open>pyproject_rules =
     [
      (lit (S ''name = "template_core"''),
       S ''name = "{{cookiecutter.project_slug}}_core"''),
      (lit (S ''name = "template_tools"''),
       S ''name = "{{cookiecutter.project_slug}}_tools"''),
      (lit (S ''name = "template-tools"''),
       S ''name = "{{cookiecutter.project_slug}}-tools"''),
      (lit (S ''template-core = "template_core.cli:main"''),
       S ''{{cookiecutter.project_slug}}-core = "{{cookiecutter.project_slug}}_core.cli:main"''),
      (lit (S ''template-tools = "template_tools.cli:main"''),
       S ''{{cookiecutter.project_slug}}-tools = "{{cookiecutter.project_slug}}_tools.cli:main"''),
      (lit (S ''authors = ["'') @ [Plus NotQuote] @ lit (S ''"]''),
       S ''authors = ["{{cookiecutter.author_name}} <{{cookiecutter.author_email}}>"]''),
      (lit (S ''template_tools = { path = "../template_tools/", develop = true }''),
       S ''{{cookiecutter.project_slug}}_tools = { path = "../{{cookiecutter.project_slug}}_tools/", develop = true }''),
      (lit (S ''description = "Core functionality for the template project."''),
       S ''description = "Core functionality for the {{cookiecutter.project_name}} project."''),
      (lit (S ''description = "Shared utils for the template project."''),
       S ''description = "Shared utils for the {{cookiecutter.project_name}} project."'')
     ]\<close>

definition env_rules :: "(atom list \<times> pystr) list" where
  \<open>env_rules =
     [
      (lit (S ''IMAGE_NAME=template''),
       S ''IMAGE_NAME={{cookiecutter.docker_image_name}}''),
      (lit (S ''USER_NAME='') @ [Plus Word],
       S ''USER_NAME={{cookiecutter.user_name}}''),
      (lit (S ''IMAGE_VERSION=v'') @ [Plus Digit] @ lit (S ''.'') @ [Plus Digit] @ lit (S ''.'') @ [Plus Digit],
       S ''IMAGE_VERSION={{cookiecutter.docker_image_version}}'')
     ]\<close>

definition devcontainer_rules :: "(atom list \<times> pystr) list" where
  \<open>devcontainer_rules =
     [
      (lit (S ''"name": "template"''),
       S ''"name": "{{cookiecutter.project_name}}"''),
      (lit (S ''"image": "template:v'') @ [Plus Digit] @ lit (S ''.'') @ [Plus Digit] @ lit (S ''.'') @ [Plus Digit] @ lit (S ''"''),
       S ''"image": "{{cookiecutter.docker_image_name}}:{{cookiecutter.docker_image_version}}"''),
      (lit (S ''/home/klapaucius/''),
       S ''/home/{{cookiecutter.user_name}}/'')
     ]\<close>

definition compose_rules :: "(atom list \<times> pystr) list" where
  \<open>compose_rules =
     [
      (lit (S ''template-dev:''),
       S ''{{cookiecutter.docker_service_name}}:'')
     ]\<close>

definition shell_rules :: "(atom list \<times> pystr) list" where
  \<open>shell_rules =
     [
      (lit (S ''/home/klapaucius/''),
       S ''/home/{{cookiecutter.user_name}}/'')
     ]\<close>

definition readme_rules :: "(atom list \<times> pystr) list" where
  \<open>readme_rules =
     [
      (lit (S ''> **'' @ [128230] @ S '' Using this as a Cookiecutter Template?** See [COOKIECUTTER_README.md](COOKIECUTTER_README.md) for instructions on generating new projects from this template.'' @ [10] @ [10]),
       []),
      ([LineStart] @ lit (S ''# Template Project''),
       S ''# {{cookiecutter.project_name}}''),
      (lit (S ''git clone git@github.com:jackhjfission/template.git''),
       S ''git clone <your-repo-url>''),
      (lit (S ''cd template''),
       S ''cd {{cookiecutter.project_slug}}''),
      ([WordBoundary] @ lit (S ''template_core'') @ [WordBoundary],
       S ''{{cookiecutter.project_slug}}_core''),
      ([WordBoundary] @ lit (S ''template_tools'') @ [WordBoundary],
       S ''{{cookiecutter.project_slug}}_tools''),
      ([WordBoundary] @ lit (S ''template-tools'') @ [WordBoundary],
       S ''{{cookiecutter.project_slug}}-tools''),
      (lit (S ''A Python monorepo template''),
       S ''A Python monorepo for {{cookiecutter.project_name}}''),
      ([WordBoundary] @ lit (S ''klapaucius'') @ [WordBoundary],
       S ''{{cookiecutter.user_name}}''),
      (lit (S ''IMAGE_NAME=template''),
       S ''IMAGE_NAME={{cookiecutter.docker_image_name}}'')
     ]\<close>

definition python_rules :: "(atom list \<times> pystr) list" where
  \<open>python_rules =
     [
      ([WordBoundary] @ lit (S ''template_core'') @ [WordBoundary],
       S ''{{cookiecutter.project_slug}}_core''),
      ([WordBoundary] @ lit (S ''template_tools'') @ [WordBoundary],
       S ''{{cookiecutter.project_slug}}_tools'')
     ]\<close>

definition precommit_rules :: "(atom list \<times> pystr) list" where
  \<open>precommit_rules =
     [
      (lit (S ''--config-file=template_core/mypy.ini''),
       S ''--config-file={{cookiecutter.project_slug}}_core/mypy.ini''),
      (lit (S ''--config-file=template_tools/mypy.ini''),
       S ''--config-file={{cookiecutter.project_slug}}_tools/mypy.ini'')
     ]\<close>


text \<open>
  The chain of \<open>if\<close>/\<open>elif\<close> branches on \<open>filepath.name\<close> (lines 142 to 338): the
  first branch whose test holds is the only one that runs.
\<close>

definition process_text_content :: "ucd \<Rightarrow> pystr \<Rightarrow> ppath \<Rightarrow> pystr" where
  \<open>process_text_content U content filepath =
     (let filename = name filepath in
      if filename = S ''pyproject.toml'' then apply_rules U pyproject_rules content
      else if filename = S ''.env'' then apply_rules U env_rules content
      else if filename = S ''devcontainer.json'' then apply_rules U devcontainer_rules content
      else if filename = S ''compose.yaml'' then apply_rules U compose_rules content
      else if suffix (S ''.sh'') filename \<or> filename = S ''pre-commit'' then
        (let content' = apply_rules U shell_rules content in
         if sublist (S ''${#'') content'
         then str_replace (S ''${#'') (S ''{{ '${#' }}'') content'
         else content')
      else if filename = S ''README.md'' then apply_rules U readme_rules content
      else if suffix (S ''.py'') filename then apply_rules U python_rules content
      else if filename = S ''.pre-commit-config.yaml'' then
        apply_rules U precommit_rules content
      else if suffix (S ''.yml'') filename \<or> suffix (S ''.yaml'') filename then
        (if sublist (S ''${{'') content
         then S ''{% raw %}'' @ content @ S ''{% endraw %}''
         else content)
      else content)\<close>

section \<open>Tree Copier\<close>

text \<open>
  Reading a file with \<open>open(source, 'r', encoding='utf-8')\<close> decodes its bytes as
  strict UTF-8 (no overlong form, no surrogate, nothing above U+10FFFF) and maps
  \<open>\r\n\<close> and \<open>\r\<close> to \<open>\n\<close>; a byte sequence that is not UTF-8 raises
  UnicodeDecodeError, the value None here. Bytes are numbers below 256.
\<close>

definition cont :: "nat \<Rightarrow> bool" where
  "cont b = (128 \<le> b \<and> b < 192)"

fun utf8_decode :: "nat list \<Rightarrow> pystr option" where
  "utf8_decode [] = Some []"
| "utf8_decode (b0 # bs) =
     (if b0 < 128 then map_option ((#) b0) (utf8_decode bs)
      else if 194 \<le> b0 \<and> b0 < 224 then
        (case bs of
           b1 # r \<Rightarrow>
             if cont b1
             then map_option ((#) ((b0 - 192) * 64 + (b1 - 128))) (utf8_decode r)
             else None
         | _ \<Rightarrow> None)
      else if 224 \<le> b0 \<and> b0 < 240 then
        (case bs of
           b1 # b2 # r \<Rightarrow>
             (let cp = (b0 - 224) * 4096 + (b1 - 128) * 64 + (b2 - 128) in
              if cont b1 \<and> cont b2 \<and> 2048 \<le> cp \<and> \<not> (55296 \<le> cp \<and> cp < 57344)
              then map_option ((#) cp) (utf8_decode r)
              else None)
         | _ \<Rightarrow> None)
      else if 240 \<le> b0 \<and> b0 < 245 then
        (case bs of
           b1 # b2 # b3 # r \<Rightarrow>
             (let cp = (b0 - 240) * 262144 + (b1 - 128) * 4096 + (b2 - 128) * 64 + (b3 - 128) in
              if cont b1 \<and> cont b2 \<and> cont b3 \<and> 65536 \<le> cp \<and> cp < 1114112
              then map_option ((#) cp) (utf8_decode r)
              else None)
         | _ \<Rightarrow> None)
      else None)"

fun universal_newlines :: "pystr \<Rightarrow> pystr" where
  "universal_newlines [] = []"
| "universal_newlines [c] = (if c = 13 then [10] else [c])"
| "universal_newlines (c # d # r) =
     (if c = 13 \<and> d = 10 then 10 # universal_newlines r
      else if c = 13 then 10 # universal_newlines (d # r)
      else c # universal_newlines (d # r))"

definition read_text :: "nat list \<Rightarrow> pystr option" where
  "read_text bytes = map_option universal_newlines (utf8_decode bytes)"

text \<open>
  Writing with \<open>encoding='utf-8'\<close> on a POSIX system: the newline stays one byte, and
  a surrogate or a number that is no code point raises UnicodeEncodeError.
\<close>

definition encode_char :: "nat \<Rightarrow> nat list option" where
  "encode_char c =
     (if c < 128 then Some [c]
      else if c < 2048 then Some [192 + c div 64, 128 + c mod 64]
      else if 55296 \<le> c \<and> c < 57344 then None
      else if c < 65536 then Some [224 + c div 4096, 128 + (c div 64) mod 64, 128 + c mod 64]
      else if c < 1114112 then
        Some [240 + c div 262144, 128 + (c div 4096) mod 64, 128 + (c div 64) mod 64,
              128 + c mod 64]
      else None)"

fun utf8_encode :: "pystr \<Rightarrow> nat list option" where
  "utf8_encode [] = Some []"
| "utf8_encode (c # cs) =
     (case encode_char c of
        None \<Rightarrow> None
      | Some bs \<Rightarrow> map_option ((@) bs) (utf8_encode cs))"

text \<open>
  \<open>Path.mkdir(parents=True, exist_ok=True)\<close>: an existing directory is left as it
  is, a regular file at the path raises FileExistsError, a regular file on the way
  to it NotADirectoryError; missing ancestors are created first.
\<close>

function mkdir_parents :: "filesystem \<Rightarrow> ppath \<Rightarrow> error + filesystem" where
  "mkdir_parents fs p =
     (case lookup fs p of
        Some DirNode \<Rightarrow> Inr fs
      | Some (FileNode b x) \<Rightarrow> Inl FileExistsError
      | None \<Rightarrow>
          (case mkdir_parents fs (parent p) of
             Inl e \<Rightarrow> Inl (if e = FileExistsError then NotADirectoryError else e)
           | Inr fs' \<Rightarrow> Inr (fs'(p \<mapsto> DirNode))))"
  by pat_completeness auto
termination
  by (relation "measure (\<lambda>(fs, p). length (segs p))")
     (auto simp: lookup_def parent_def split: if_splits)

declare mkdir_parents.simps [simp del]

text \<open>
  A path beneath a regular file: some proper ancestor of it is a regular file.
  Opening such a path raises NotADirectoryError, where a path that is merely
  missing raises FileNotFoundError.
\<close>

definition beneath_file :: "filesystem \<Rightarrow> ppath \<Rightarrow> bool" where
  "beneath_file fs p =
     list_ex (\<lambda>k. is_file fs (p\<lparr>segs := take k (segs p)\<rparr>)) [0..<length (segs p)]"

definition missing_error :: "filesystem \<Rightarrow> ppath \<Rightarrow> error" where
  "missing_error fs p = (if beneath_file fs p then NotADirectoryError else FileNotFoundError)"

text \<open>
  \<open>open(p, 'r')\<close> and \<open>open(p, 'rb')\<close> followed by the read: the bytes of a regular
  file, with its executable flag, or the error the call raises.
\<close>

definition read_file :: "filesystem \<Rightarrow> ppath \<Rightarrow> error + (nat list \<times> bool)" where
  "read_file fs p =
     (case lookup fs p of
        Some (FileNode b x) \<Rightarrow> Inr (b, x)
      | Some DirNode \<Rightarrow> Inl IsADirectoryError
      | None \<Rightarrow> Inl (missing_error fs p))"

text \<open>The error \<open>open(p, 'w')\<close> raises, if any.\<close>

definition open_w :: "filesystem \<Rightarrow> ppath \<Rightarrow> error option" where
  "open_w fs p =
     (case lookup fs p of
        Some DirNode \<Rightarrow> Some IsADirectoryError
      | _ \<Rightarrow>
          (case lookup fs (parent p) of
             Some DirNode \<Rightarrow> None
           | Some (FileNode b x) \<Rightarrow> Some NotADirectoryError
           | None \<Rightarrow> Some (missing_error fs p)))"

text \<open>
  The executable flag of the file that \<open>open(p, 'w')\<close> leaves at \<open>p\<close>: a file that
  exists keeps its mode, a new file is not executable.
\<close>

definition old_exec :: "filesystem \<Rightarrow> ppath \<Rightarrow> bool" where
  "old_exec fs p = (case lookup fs p of Some (FileNode b x) \<Rightarrow> x | _ \<Rightarrow> False)"

text \<open>
  \<open>shutil.copy2(source, dest)\<close>: a \<open>dest\<close> that is a directory stands for the file of
  the source's name inside it. A source that exists and is the destination itself
  raises SameFileError; otherwise the source is opened, then the destination, and
  the bytes of the source are written as they are, with its mode.
\<close>

definition copy2 :: "filesystem \<Rightarrow> ppath \<Rightarrow> ppath \<Rightarrow> error + filesystem" where
  "copy2 fs source dest =
     (let dst = (if is_dir fs dest then path_join dest (rel [name source]) else dest) in
      if lookup fs source \<noteq> None \<and> dst = source then Inl SameFileError
      else
        (case read_file fs source of
           Inl e \<Rightarrow> Inl e
         | Inr (bytes, x) \<Rightarrow>
             (case open_w fs dst of
                Some e \<Rightarrow> Inl e
              | None \<Rightarrow> Inr (fs(dst \<mapsto> FileNode bytes x)))))"

text \<open>
  \<open>copy_and_process_file\<close> (lines 341 to 364). The \<open>except\<close> clause catches the
  UnicodeDecodeError of the read and an IsADirectoryError of either \<open>open\<close>; every
  other error leaves the function. After the write, lines 358 to 360 make the
  destination executable when the source is.
\<close>

definition copy_and_process_file ::
    "ucd \<Rightarrow> filesystem \<Rightarrow> ppath \<Rightarrow> ppath \<Rightarrow> error + filesystem" where
  "copy_and_process_file U fs source dest =
     (case mkdir_parents fs (parent dest) of
        Inl e \<Rightarrow> Inl e
      | Inr fs1 \<Rightarrow>
          (case read_file fs1 source of
             Inl e \<Rightarrow> if e = IsADirectoryError then copy2 fs1 source dest else Inl e
           | Inr (bytes, x) \<Rightarrow>
               (case read_text bytes of
                  None \<Rightarrow> copy2 fs1 source dest
                | Some content \<Rightarrow>
                    (let processed_content = process_text_content U content source in
                     case open_w fs1 dest of
                       Some e \<Rightarrow>
                         if e = IsADirectoryError then copy2 fs1 source dest else Inl e
                     | None \<Rightarrow>
                         (case utf8_encode processed_content of
                            None \<Rightarrow> Inl UnicodeEncodeError
                          | Some bs \<Rightarrow>
                              Inr (fs1(dest \<mapsto> FileNode bs (old_exec fs1 dest \<or> x))))))))"

text \<open>
  \<open>copy_directory_structure\<close> (lines 367 to 385) over the entries \<open>source.rglob("*")\<close>
  yields, given as a list in the order of the traversal. The source is
  \<open>Path(".")\<close>: \<open>item.relative_to(source)\<close> is the item itself when it is relative
  and raises ValueError, which skips the item, when it is absolute.
\<close>

definition relative_to_source :: "ppath \<Rightarrow> error + ppath" where
  "relative_to_source item = (if absolute item then Inl ValueError else Inr item)"

fun copy_directory_structure :: "ucd \<Rightarrow> filesystem \<Rightarrow> ppath list \<Rightarrow> error + filesystem" where
  "copy_directory_structure U fs [] = Inr fs"
| "copy_directory_structure U fs (item # rest) =
     (if should_exclude fs item then copy_directory_structure U fs rest
      else
        (case relative_to_source item of
           Inl e \<Rightarrow> copy_directory_structure U fs rest
         | Inr relative_path \<Rightarrow>
             (case get_template_path relative_path of
                Inl e \<Rightarrow> Inl e
              | Inr dest_path \<Rightarrow>
                  if is_file fs item then
                    (case copy_and_process_file U fs item dest_path of
                       Inl e \<Rightarrow> Inl e
                     | Inr fs' \<Rightarrow> copy_directory_structure U fs' rest)
                  else if is_dir fs item then
                    (case mkdir_parents fs dest_path of
                       Inl e \<Rightarrow> Inl e
                     | Inr fs' \<Rightarrow> copy_directory_structure U fs' rest)
                  else copy_directory_structure U fs rest)))"

section \<open>Concrete inputs\<close>

text \<open>
  A Unicode database with no alphanumeric character and no digit outside ASCII,
  and a small source tree; both are used to run the definitions.
\<close>

definition ascii_ucd :: ucd where
  "ascii_ucd = \<lparr>uni_alnum = (\<lambda>c. False), uni_decimal = (\<lambda>c. False)\<rparr>"

definition example_tree :: filesystem where
  "example_tree =
     map_of
       [(rel [S ''.git''], FileNode (S ''gitdir: ../repo.git'' @ [10]) False),
        (rel [S ''.github''], DirNode),
        (rel [S ''pkg''], DirNode),
        (rel [S ''pkg'', S ''mod.pyc''], FileNode [0, 255] False),
        (rel [S ''scratchpads''], DirNode),
        (rel [S ''scratchpads'', S ''.gitignore''], FileNode (S ''*'' @ [10]) False),
        (rel [S ''scratchpads'', S ''notes.txt''], FileNode (S ''todo'' @ [10]) False),
        (rel [S ''scratchpads'', S ''.git''], DirNode),
        (rel [S ''scratchpads'', S ''.git'', S ''.gitignore''], FileNode [] False),
        (rel [S ''logo.png''], FileNode [137, 80, 78, 71] False),
        (rel [S ''run.sh''], FileNode (S ''echo ${#a}'' @ [10]) True)]"

section \<open>Notions used in the statements and proofs\<close>


text \<open>
  Two strings are comparable when one is a prefix of the other; \<open>apart a b\<close> says that
  no non-empty suffix of \<open>a\<close> is comparable with \<open>b\<close>, so that an occurrence of \<open>b\<close>
  can neither start inside \<open>a\<close> nor continue from the end of \<open>a\<close>.
\<close>

definition compat :: "'a list \<Rightarrow> 'a list \<Rightarrow> bool" where
  "compat a b = (prefix a b \<or> prefix b a)"

fun apart :: "'a list \<Rightarrow> 'a list \<Rightarrow> bool" where
  "apart [] b = True"
| "apart (x # xs) b = (\<not> compat (x # xs) b \<and> apart xs b)"


text \<open>
  \<open>re.search(pattern, s)\<close> finds a match: the pattern matches at some position of
  \<open>s\<close>. It is the sense in which a line matches a pattern of a rule list.
\<close>

fun re_search :: "ucd \<Rightarrow> atom list \<Rightarrow> nat option \<Rightarrow> pystr \<Rightarrow> bool" where
  "re_search U pat prev [] = (rmatch U pat prev [] \<noteq> None)"
| "re_search U pat prev (c # cs) =
     (rmatch U pat prev (c # cs) \<noteq> None \<or> re_search U pat (Some c) cs)"

text \<open>
  The atoms that cannot match a newline and do not look at the character before the
  match: literal characters other than the newline, and the classes \<open>\w\<close> and \<open>\d\<close>.
\<close>

fun simple_atom :: "atom \<Rightarrow> bool" where
  "simple_atom (Chr c) = (c \<noteq> 10)"
| "simple_atom (Plus C) = (C \<noteq> NotQuote)"
| "simple_atom WordBoundary = False"
| "simple_atom LineStart = False"

text \<open>
  A line is an instance of a pattern when the pattern matches it from its first to
  its last character, as \<open>re.fullmatch\<close> tests.
\<close>

definition whole_line :: "ucd \<Rightarrow> atom list \<Rightarrow> pystr \<Rightarrow> bool" where
  "whole_line U pat l = (rmatch U pat None l = Some (length l))"

text \<open>
  The number of opening braces (code point 123) of a string, and the patterns that
  can match none: every replacement of the environment file adds braces and no
  match holds one, so the count tells whether anything was replaced.
\<close>

definition braces :: "pystr \<Rightarrow> nat" where
  "braces s = length (filter (\<lambda>c. c = 123) s)"

fun brace_free :: "atom \<Rightarrow> bool" where
  "brace_free (Chr c) = (c \<noteq> 123)"
| "brace_free (Plus C) = (C \<noteq> NotQuote)"
| "brace_free WordBoundary = True"
| "brace_free LineStart = True"

definition starts_with_chr :: "atom list \<Rightarrow> bool" where
  "starts_with_chr pat = (case pat of Chr c # _ \<Rightarrow> True | _ \<Rightarrow> False)"

section \<open>Exclusion\<close>


lemma index_of_drop:
  "x \<in> set xs \<Longrightarrow> last xs \<noteq> x \<Longrightarrow> drop (index_of x xs + 1) xs \<noteq> []"
  by (induction xs) (auto simp: index_of_def split: if_splits)

lemma last_parts: "segs p \<noteq> [] \<Longrightarrow> last (parts p) = name p"
  by (simp add: parts_def name_def)

lemma git_in_parts: "S ''.git'' \<in> set (parts p) \<Longrightarrow> S ''.git'' \<in> set (segs p)"
  by (auto simp: parts_def S_def split: if_splits)

lemma inside_gitI:
  assumes "S ''.git'' \<in> set (parts p)" and "name p \<noteq> S ''.git''"
  shows "inside_git p"
proof -
  have "segs p \<noteq> []" using git_in_parts[OF assms(1)] by auto
  hence "last (parts p) \<noteq> S ''.git''" using assms(2) by (simp add: last_parts)
  with assms(1) show ?thesis
    using index_of_drop[of "S ''.git''" "parts p"] by (simp add: inside_git_def)
qed

lemmas tree_eval =
  example_tree_def rel_def parts_def name_def path_str_def path_match_def lookup_def
  is_file_def is_dir_def inside_git_def index_of_def S_def sublist_Cons_right

text \<open>
  Every path that lies beneath a \<open>.git\<close> segment, and every directory named \<open>.git\<close>,
  is excluded; there is no exception, the scratchpads rule is not reached. The
  copier skips such an entry: the run goes on with the remaining entries on the
  same file system. A path with a \<open>.git\<close> segment is of one of these two kinds unless
  it is named \<open>.git\<close>, is no directory and lies beneath no \<open>.git\<close> segment.
\<close>

lemma git_segment_cases:
  "S ''.git'' \<in> set (parts p) \<Longrightarrow> inside_git p \<or> name p = S ''.git''"
  using inside_gitI by blast

lemma git_paths_excluded:
  assumes "inside_git p \<or> (name p = S ''.git'' \<and> is_dir fs p)"
  shows "should_exclude fs p \<and>
         copy_directory_structure U fs (p # rest) = copy_directory_structure U fs rest"
proof -
  have "should_exclude fs p"
    using assms by (auto simp: should_exclude_def)
  thus ?thesis by simp
qed

lemma git_file_beneath_git_excluded:
  "inside_git (rel [S ''.git'', S ''.git'']) \<and>
   should_exclude fs (rel [S ''.git'', S ''.git''])"
  using git_paths_excluded[of "rel [S ''.git'', S ''.git'']" fs]
  by (simp add: inside_git_def index_of_def rel_def parts_def S_def)

text \<open>
  C1 (the code departs from the claim). A regular file named \<open>.git\<close> (the pointer file
  of a worktree or submodule) has a segment equal to \<open>.git\<close> and lies in no
  scratchpads directory, so the claim excludes it; \<open>.git\<close> stands in the list of
  files and directories to exclude, and the loop skips that pattern on the ground
  that it was handled before. But line 86 asks for a directory and line 89 for
  parts after \<open>.git\<close>: the file is not excluded, and the copier writes it into the
  template.
\<close>

theorem git_regular_file_kept:
  "S ''.git'' \<in> set (parts (rel [S ''.git''])) \<and>
   is_file example_tree (rel [S ''.git'']) \<and>
   S ''scratchpads'' \<notin> set (parts (rel [S ''.git''])) \<and>
   \<not> should_exclude example_tree (rel [S ''.git'']) \<and>
   (case copy_directory_structure ascii_ucd example_tree [rel [S ''.git'']] of
      Inl e \<Rightarrow> False
    | Inr fs' \<Rightarrow>
        fs' (rel [S ''cookiecutter-output'', S ''{{cookiecutter.project_slug}}'', S ''.git''])
          = Some (FileNode (S ''gitdir: ../repo.git'' @ [10]) False))"
  by (simp add: tree_eval should_exclude_def EXCLUDE_PATTERNS_def get_template_path_def Let_def
      rename_part_def DIRECTORY_RENAMES_def path_of_parts_def path_join_def TEMPLATE_ROOT_def
      relative_to_source_def copy_and_process_file_def mkdir_parents.simps parent_def
      open_w_def read_file_def old_exec_def read_text_def encode_char_def
      process_text_content_def suffix_to_prefix)




section \<open>Path rewriting\<close>

lemma rename_part_cases:
  "rename_part x =
     (if x = S ''template_core'' then S ''{{cookiecutter.project_slug}}_core''
      else if x = S ''template_tools'' then S ''{{cookiecutter.project_slug}}_tools''
      else x)"
  by (simp add: rename_part_def DIRECTORY_RENAMES_def)

text \<open>
  For a relative path with at least one segment, the destination is the template
  root followed by the segments of the source, in order, each renamed as a whole
  when it is a key of the rename table and kept otherwise. (A parsed path has
  neither \<open>.\<close> nor \<open>/\<close> as a segment.)
\<close>

lemma get_template_path_segments:
  assumes "\<not> absolute p" and "segs p \<noteq> []"
    and "hd (segs p) \<noteq> S ''.''" and "hd (segs p) \<noteq> S ''/''"
  shows "get_template_path p =
           Inr (rel ([S ''cookiecutter-output'', S ''{{cookiecutter.project_slug}}'']
                     @ map rename_part (segs p)))"
proof -
  obtain x xs where sp: "segs p = x # xs" using assms(2) by (cases "segs p") auto
  have x: "x \<noteq> S ''.''" "x \<noteq> S ''/''" using assms(3,4) sp by simp_all
  have "rename_part x \<noteq> S ''/''"
    using x(2) by (auto simp: rename_part_cases S_def)
  thus ?thesis
    using assms(1) x
    by (simp add: get_template_path_def parts_def sp Let_def path_of_parts_def path_join_def
        TEMPLATE_ROOT_def rel_def)
qed

text \<open>
  \<open>Path(".")\<close>, the relative path with no segment, is no entry of a tree:
  \<open>source.rglob("*")\<close> yields paths with at least one segment, and line 380 passes
  only those. Called with it directly, \<open>parts[0]\<close> on line 117 raises IndexError.
\<close>

lemma get_template_path_current_dir:
  "get_template_path (rel []) = Inl IndexError"
  by (simp add: get_template_path_def parts_def rel_def)

text \<open>
  C3. For every relative source path (the path of a tree entry: at least one
  segment, and as in every parsed path neither \<open>.\<close> nor \<open>/\<close> as a segment) the
  destination is the template root followed by the segments of the source, as many
  and in the same order, each the image of the source segment under \<open>rename_part\<close>;
  and \<open>rename_part\<close> changes a segment only when the whole segment is
  \<open>template_core\<close> or \<open>template_tools\<close>, wherever it stands in the path.
\<close>

theorem template_path_whole_segments:
  assumes "\<not> absolute p" and "segs p \<noteq> []"
    and "hd (segs p) \<noteq> S ''.''" and "hd (segs p) \<noteq> S ''/''"
  shows "get_template_path p =
           Inr (rel ([S ''cookiecutter-output'', S ''{{cookiecutter.project_slug}}'']
                     @ map rename_part (segs p))) \<and>
         TEMPLATE_ROOT = rel [S ''cookiecutter-output'', S ''{{cookiecutter.project_slug}}''] \<and>
         (\<forall>x. rename_part x =
            (if x = S ''template_core'' then S ''{{cookiecutter.project_slug}}_core''
             else if x = S ''template_tools'' then S ''{{cookiecutter.project_slug}}_tools''
             else x))"
  using get_template_path_segments[OF assms] rename_part_cases
  by (simp add: TEMPLATE_ROOT_def)

theorem template_path_whole_segments_witness:
  "\<not> absolute (rel [S ''template_core'', S ''tests'', S ''template_core'',
                     S ''my_template_core.py'']) \<and>
   get_template_path (rel [S ''template_core'', S ''tests'', S ''template_core'',
                           S ''my_template_core.py''])
     = Inr (rel [S ''cookiecutter-output'', S ''{{cookiecutter.project_slug}}'',
                 S ''{{cookiecutter.project_slug}}_core'', S ''tests'',
                 S ''{{cookiecutter.project_slug}}_core'', S ''my_template_core.py''])"
  using template_path_whole_segments[of "rel [S ''template_core'', S ''tests'',
      S ''template_core'', S ''my_template_core.py'']"]
  by (simp add: rel_def S_def)

section \<open>Dispatch of the Content Transformer\<close>

lemma suffix_last:
  "suffix a n \<Longrightarrow> suffix b n \<Longrightarrow> a \<noteq> [] \<Longrightarrow> b \<noteq> [] \<Longrightarrow> last a = last b"
  by (auto simp: suffix_def) (metis last_appendR)

lemma yaml_name_facts:
  assumes "suffix (S ''.yml'') n \<or> suffix (S ''.yaml'') n"
  shows "n \<noteq> S ''pyproject.toml''" "n \<noteq> S ''.env''" "n \<noteq> S ''devcontainer.json''"
    "\<not> suffix (S ''.sh'') n" "n \<noteq> S ''pre-commit''" "n \<noteq> S ''README.md''"
    "\<not> suffix (S ''.py'') n"
proof -
  show "n \<noteq> S ''pyproject.toml''" "n \<noteq> S ''.env''" "n \<noteq> S ''devcontainer.json''"
    "n \<noteq> S ''pre-commit''" "n \<noteq> S ''README.md''"
    using assms by (auto simp: S_def suffix_to_prefix)
  show "\<not> suffix (S ''.sh'') n"
    using assms suffix_last[of "S ''.sh''" n "S ''.yml''"] suffix_last[of "S ''.sh''" n "S ''.yaml''"]
    by (auto simp: S_def)
  show "\<not> suffix (S ''.py'') n"
    using assms suffix_last[of "S ''.py''" n "S ''.yml''"] suffix_last[of "S ''.py''" n "S ''.yaml''"]
    by (auto simp: S_def)
qed

lemmas content_eval =
  process_text_content_def name_def rel_def S_def lit_def Let_def ascii_ucd_def
  word_char_def is_alnum_def is_decimal_def suffix_to_prefix sublist_Cons_right

text \<open>
  C4 (as amended). For a file name ending in \<open>.yml\<close> or \<open>.yaml\<close> other than
  \<open>compose.yaml\<close> and \<open>.pre-commit-config.yaml\<close>: content that contains \<open>${{\<close> is
  returned between \<open>{% raw %}\<close> and \<open>{% endraw %}\<close>, itself unchanged, and content
  without \<open>${{\<close> is returned as it is.
\<close>

theorem workflow_wrapped:
  assumes "suffix (S ''.yml'') (name p) \<or> suffix (S ''.yaml'') (name p)"
    and "name p \<noteq> S ''compose.yaml''" and "name p \<noteq> S ''.pre-commit-config.yaml''"
  shows "process_text_content U c p =
           (if sublist (S ''${{'') c then S ''{% raw %}'' @ c @ S ''{% endraw %}'' else c)"
  using assms yaml_name_facts[OF assms(1)]
  by (simp add: process_text_content_def Let_def)

theorem workflow_wrapped_witness:
  "suffix (S ''.yml'') (name (rel [S ''.github'', S ''workflows'', S ''ci.yml''])) \<and>
   process_text_content ascii_ucd (S ''run: ${{ matrix.os }} template_core'')
     (rel [S ''.github'', S ''workflows'', S ''ci.yml''])
   = S ''{% raw %}run: ${{ matrix.os }} template_core{% endraw %}''"
  using workflow_wrapped[of "rel [S ''.github'', S ''workflows'', S ''ci.yml'']" ascii_ucd
      "S ''run: ${{ matrix.os }} template_core''"]
  by (simp add: name_def rel_def S_def suffix_to_prefix sublist_Cons_right)

text \<open>
  C4 as stated fails for \<open>compose.yaml\<close>: its name ends in \<open>.yaml\<close>, its content holds
  \<open>${{\<close>, and the content comes back without the directive pair; content without
  \<open>${{\<close> is not returned unchanged either, the service name is replaced.
\<close>

theorem compose_not_wrapped:
  "suffix (S ''.yaml'') (name (rel [S ''compose.yaml''])) \<and>
   sublist (S ''${{'') (S ''image: ${{ x }}'') \<and>
   process_text_content ascii_ucd (S ''image: ${{ x }}'') (rel [S ''compose.yaml''])
     = S ''image: ${{ x }}'' \<and>
   \<not> sublist (S ''${{'') (S ''template-dev:'') \<and>
   process_text_content ascii_ucd (S ''template-dev:'') (rel [S ''compose.yaml''])
     = S ''{{cookiecutter.docker_service_name}}:''"
  by (simp add: content_eval compose_rules_def)

text \<open>
  C9. The transformed content is a function of the content and of the final segment
  of the path alone: two paths with the same name give the same result (and the
  function has no other argument but the character tables of the interpreter).
\<close>

theorem transform_depends_on_name:
  "name p = name q \<Longrightarrow> process_text_content U c p = process_text_content U c q"
  by (simp add: process_text_content_def)

theorem transform_depends_on_name_witness:
  "name (rel [S ''a'', S ''compose.yaml'']) = name (rel [S ''b'', S ''c'', S ''compose.yaml'']) \<and>
   process_text_content ascii_ucd (S ''template-dev:'') (rel [S ''a'', S ''compose.yaml''])
   = process_text_content ascii_ucd (S ''template-dev:'') (rel [S ''b'', S ''c'', S ''compose.yaml''])"
  using transform_depends_on_name[of "rel [S ''a'', S ''compose.yaml'']"
      "rel [S ''b'', S ''c'', S ''compose.yaml'']" ascii_ucd "S ''template-dev:''"]
  by (simp add: name_def rel_def)

section \<open>Replacement of literals\<close>

lemma rmatch_lit:
  "rmatch U (lit p) prev s = (if prefix p s then Some (length p) else None)"
  by (induction p arbitrary: prev s) (auto simp: lit_def split: list.splits)

lemma re_sub_lit:
  "p \<noteq> [] \<Longrightarrow> re_sub U (lit p) r prev s = str_replace p r s"
proof (induction "length s" arbitrary: s prev rule: less_induct)
  case less
  show ?case
  proof (cases s)
    case Nil
    then show ?thesis by simp
  next
    case (Cons c cs)
    obtain n where n: "length p = Suc n" using less.prems by (cases p) auto
    show ?thesis
    proof (cases "prefix p s")
      case True
      have "length (drop n cs) < length s" by (simp add: Cons)
      from less.hyps[OF this less.prems] True show ?thesis
        by (simp add: Cons rmatch_lit n less.prems)
    next
      case False
      have "length cs < length s" by (simp add: Cons)
      from less.hyps[OF this less.prems] False show ?thesis
        by (simp add: Cons rmatch_lit less.prems)
    qed
  qed
qed

lemma prefix_append_compat: "prefix a (b @ c) \<Longrightarrow> compat a b"
  by (auto simp: compat_def prefix_append)

lemma apart_drop: "apart a b \<Longrightarrow> j < length a \<Longrightarrow> \<not> compat (drop j a) b"
proof (induction a arbitrary: j)
  case Nil
  then show ?case by simp
next
  case (Cons x xs)
  then show ?case by (cases j) auto
qed

lemma str_replace_prefix:
  "apart q r \<Longrightarrow> j < length q \<Longrightarrow> prefix (drop j q) (str_replace p r s) \<Longrightarrow>
     prefix (drop j q) s"
proof (induction p r s arbitrary: j rule: str_replace.induct)
  case (1 old new)
  then show ?case by simp
next
  case (2 old new c cs)
  show ?case
  proof (cases "old \<noteq> [] \<and> prefix old (c # cs)")
    case True
    with "2.prems"(3) have "prefix (drop j q) (new @ str_replace old new (drop (length old) (c # cs)))"
      by simp
    hence "compat (drop j q) new" by (rule prefix_append_compat)
    with apart_drop[OF "2.prems"(1,2)] show ?thesis by simp
  next
    case False
    obtain x t where d: "drop j q = x # t" using "2.prems"(2) by (cases "drop j q") auto
    have t: "t = drop (Suc j) q" using d by (metis drop_Suc drop_tl list.sel(3) tl_drop)
    from False "2.prems"(3) have xc: "x = c" and pt: "prefix t (str_replace old new cs)"
      by (auto simp: d)
    have "prefix t cs"
    proof (cases "Suc j < length q")
      case True
      from "2.IH"(2)[OF False "2.prems"(1) True] pt t show ?thesis by simp
    next
      case False
      then show ?thesis by (simp add: t)
    qed
    then show ?thesis by (simp add: d xc)
  qed
qed




lemma str_replace_absent:
  "\<not> sublist p s \<Longrightarrow> str_replace p r s = s"
proof (induction p r s rule: str_replace.induct)
  case (1 old new)
  then show ?case by simp
next
  case (2 old new c cs)
  from "2.prems" have np: "\<not> prefix old (c # cs)" and ns: "\<not> sublist old cs"
    by (simp_all add: sublist_Cons_right)
  with "2.IH"(2) show ?case by simp
qed


lemma str_replace_shift:
  "apart w p \<Longrightarrow> str_replace p r (w @ s) = w @ str_replace p r s"
proof (induction w)
  case Nil
  then show ?case by simp
next
  case (Cons x w)
  have "\<not> prefix p (x # w @ s)"
  proof
    assume "prefix p (x # w @ s)"
    hence "prefix p ((x # w) @ s)" by simp
    hence "compat p (x # w)" by (rule prefix_append_compat)
    with Cons.prems show False by (auto simp: compat_def)
  qed
  with Cons show ?case by simp
qed

lemma never_wrapped_general:
  assumes pre: "\<And>c. prefix W (T c) \<Longrightarrow> prefix W c"
    and shift: "\<And>c. T (W @ c) = W @ T c" and W: "W \<noteq> []"
  shows "T c \<noteq> W @ c @ W2"
proof (induction "length c" arbitrary: c rule: less_induct)
  case less
  show ?case
  proof
    assume eq: "T c = W @ c @ W2"
    hence "prefix W (T c)" by simp
    from pre[OF this] obtain c1 where c: "c = W @ c1" by (auto simp: prefix_def)
    from eq have "T c1 = W @ c1 @ W2" by (simp add: c shift)
    moreover have "length c1 < length c" using W by (simp add: c)
    ultimately show False using less.hyps by blast
  qed
qed

lemma compose_apply:
  "apply_rules U compose_rules c =
     str_replace (S ''template-dev:'') (S ''{{cookiecutter.docker_service_name}}:'') c"
  by (simp add: compose_rules_def re_sub_lit S_def)

lemma precommit_apply:
  "apply_rules U precommit_rules c =
     str_replace (S ''--config-file=template_tools/mypy.ini'')
        (S ''--config-file={{cookiecutter.project_slug}}_tools/mypy.ini'')
       (str_replace (S ''--config-file=template_core/mypy.ini'')
          (S ''--config-file={{cookiecutter.project_slug}}_core/mypy.ini'') c)"
  by (simp add: precommit_rules_def re_sub_lit S_def)

lemma dispatch_compose:
  "name p = S ''compose.yaml'' \<Longrightarrow>
     process_text_content U c p = apply_rules U compose_rules c"
  by (simp add: process_text_content_def S_def)

lemma dispatch_precommit:
  "name p = S ''.pre-commit-config.yaml'' \<Longrightarrow>
     process_text_content U c p = apply_rules U precommit_rules c"
  by (simp add: process_text_content_def S_def suffix_to_prefix)




lemma compose_never_wrapped:
  "apply_rules U compose_rules c \<noteq> S ''{% raw %}'' @ c @ S ''{% endraw %}''"
proof -
  let ?P = "S ''template-dev:''" and ?R = "S ''{{cookiecutter.docker_service_name}}:''"
  let ?W = "S ''{% raw %}''"
  have a: "apart ?W ?R" "apart ?W ?P" and W: "?W \<noteq> []" by (simp_all add: S_def compat_def)
  have pre: "prefix ?W (str_replace ?P ?R c) \<Longrightarrow> prefix ?W c" for c
    using str_replace_prefix[OF a(1), of 0 ?P c] W by simp
  have shift: "str_replace ?P ?R (?W @ c) = ?W @ str_replace ?P ?R c" for c
    by (rule str_replace_shift[OF a(2)])
  show ?thesis
    unfolding compose_apply
    by (rule never_wrapped_general[where T="str_replace ?P ?R", OF pre shift W])
qed

lemma precommit_never_wrapped:
  "apply_rules U precommit_rules c \<noteq> S ''{% raw %}'' @ c @ S ''{% endraw %}''"
proof -
  let ?P1 = "S ''--config-file=template_core/mypy.ini''"
  let ?R1 = "S ''--config-file={{cookiecutter.project_slug}}_core/mypy.ini''"
  let ?P2 = "S ''--config-file=template_tools/mypy.ini''"
  let ?R2 = "S ''--config-file={{cookiecutter.project_slug}}_tools/mypy.ini''"
  let ?W = "S ''{% raw %}''"
  let ?T = "\<lambda>c. str_replace ?P2 ?R2 (str_replace ?P1 ?R1 c)"
  have a: "apart ?W ?R1" "apart ?W ?P1" "apart ?W ?R2" "apart ?W ?P2" and W: "?W \<noteq> []"
    by (simp_all add: S_def compat_def)
  have pre: "prefix ?W (?T c) \<Longrightarrow> prefix ?W c" for c
    using str_replace_prefix[OF a(3), of 0 ?P2 "str_replace ?P1 ?R1 c"]
      str_replace_prefix[OF a(1), of 0 ?P1 c] W by simp
  have shift: "?T (?W @ c) = ?W @ ?T c" for c
    by (simp only: str_replace_shift[OF a(2)] str_replace_shift[OF a(4)])
  show ?thesis
    unfolding precommit_apply
    by (rule never_wrapped_general[where T="?T", OF pre shift W])
qed




text \<open>
  C10. A file named \<open>compose.yaml\<close> or \<open>.pre-commit-config.yaml\<close> gets the rule list of
  its own branch and nothing else, whatever its content; the result is never the
  content between \<open>{% raw %}\<close> and \<open>{% endraw %}\<close>, which the branch for the \<open>.yml\<close> and
  \<open>.yaml\<close> suffixes would return for content with \<open>${{\<close>.
\<close>

theorem exact_names_first:
  assumes "name p = S ''compose.yaml'' \<or> name p = S ''.pre-commit-config.yaml''"
  shows "process_text_content U c p =
           apply_rules U (if name p = S ''compose.yaml'' then compose_rules else precommit_rules) c
         \<and> process_text_content U c p \<noteq> S ''{% raw %}'' @ c @ S ''{% endraw %}''"
proof -
  have ne: "S ''.pre-commit-config.yaml'' \<noteq> S ''compose.yaml''" by (simp add: S_def)
  from assms show ?thesis
  proof
    assume n: "name p = S ''compose.yaml''"
    show ?thesis
      using compose_never_wrapped[of U c] by (simp add: dispatch_compose[OF n] n)
  next
    assume n: "name p = S ''.pre-commit-config.yaml''"
    show ?thesis
      using precommit_never_wrapped[of U c] ne by (simp add: dispatch_precommit[OF n] n)
  qed
qed

theorem exact_names_first_witness:
  "name (rel [S ''compose.yaml'']) = S ''compose.yaml'' \<and>
   suffix (S ''.yaml'') (name (rel [S ''compose.yaml''])) \<and>
   sublist (S ''${{'') (S ''x: ${{ y }} template-dev:'') \<and>
   process_text_content ascii_ucd (S ''x: ${{ y }} template-dev:'') (rel [S ''compose.yaml''])
     = S ''x: ${{ y }} {{cookiecutter.docker_service_name}}:'' \<and>
   process_text_content ascii_ucd (S ''x: ${{ y }} template-dev:'') (rel [S ''compose.yaml''])
     \<noteq> S ''{% raw %}'' @ S ''x: ${{ y }} template-dev:'' @ S ''{% endraw %}''"
  using exact_names_first[of "rel [S ''compose.yaml'']" ascii_ucd "S ''x: ${{ y }} template-dev:''"]
  by (simp add: content_eval compose_rules_def)

section \<open>Copying\<close>

lemma parent_take:
  "k \<le> length (segs p) - 1 \<Longrightarrow> (parent p)\<lparr>segs := take k (segs (parent p))\<rparr> = p\<lparr>segs := take k (segs p)\<rparr>"
proof (cases "segs p")
  case Nil
  then show ?thesis by (simp add: parent_def)
next
  case (Cons x xs)
  assume "k \<le> length (segs p) - 1"
  hence "k < length (segs p)" by (simp add: Cons)
  thus ?thesis by (simp add: parent_def take_butlast)
qed

lemma mkdir_parents_ok:
  "(\<forall>k \<le> length (segs p). \<not> is_file fs (p\<lparr>segs := take k (segs p)\<rparr>)) \<Longrightarrow>
     \<exists>fs'. mkdir_parents fs p = Inr fs' \<and> is_dir fs' p \<and>
       (\<forall>q. fs' q \<noteq> fs q \<longrightarrow>
          fs q = None \<and> fs' q = Some DirNode \<and> prefix (segs q) (segs p))"
proof (induction fs p rule: mkdir_parents.induct)
  case (1 fs p)
  show ?case
  proof (cases "lookup fs p")
    case None
    hence ne: "segs p \<noteq> []" and fp: "fs p = None"
      by (auto simp: lookup_def split: if_splits)
    have "\<forall>k \<le> length (segs (parent p)). \<not> is_file fs ((parent p)\<lparr>segs := take k (segs (parent p))\<rparr>)"
    proof (intro allI impI)
      fix k assume "k \<le> length (segs (parent p))"
      hence k: "k \<le> length (segs p) - 1" by (simp add: parent_def)
      hence "k \<le> length (segs p)" by simp
      with "1.prems" have "\<not> is_file fs (p\<lparr>segs := take k (segs p)\<rparr>)" by blast
      thus "\<not> is_file fs ((parent p)\<lparr>segs := take k (segs (parent p))\<rparr>)"
        by (simp add: parent_take[OF k])
    qed
    from "1.IH"[OF None this] obtain fs1 where
      m: "mkdir_parents fs (parent p) = Inr fs1" and
      fr: "\<forall>q. fs1 q \<noteq> fs q \<longrightarrow> fs q = None \<and> fs1 q = Some DirNode \<and> prefix (segs q) (segs (parent p))"
      by blast
    have pp: "prefix (segs (parent p)) (segs p)"
      by (simp add: parent_def prefix_def) (metis append_butlast_last_id ne)
    have "mkdir_parents fs p = Inr (fs1(p \<mapsto> DirNode))"
      by (subst mkdir_parents.simps) (simp add: None m)
    moreover have "is_dir (fs1(p \<mapsto> DirNode)) p"
      by (simp add: is_dir_def lookup_def)
    moreover have "\<forall>q. (fs1(p \<mapsto> DirNode)) q \<noteq> fs q \<longrightarrow>
          fs q = None \<and> (fs1(p \<mapsto> DirNode)) q = Some DirNode \<and> prefix (segs q) (segs p)"
      using fr fp pp by (auto dest: prefix_order.trans)
    ultimately show ?thesis by blast
  next
    case (Some n)
    show ?thesis
    proof (cases n)
      case (FileNode b x)
      with Some have "is_file fs p" by (simp add: is_file_def)
      moreover from "1.prems" have "\<not> is_file fs (p\<lparr>segs := take (length (segs p)) (segs p)\<rparr>)"
        by blast
      ultimately show ?thesis by simp
    next
      case DirNode
      with Some have "mkdir_parents fs p = Inr fs"
        by (subst mkdir_parents.simps) simp
      moreover have "is_dir fs p" using Some DirNode by (simp add: is_dir_def)
      ultimately show ?thesis by simp
    qed
  qed
qed

text \<open>
  C8. A regular file whose bytes are not UTF-8 is not an error of the copy. When the
  destination is free (no directory stands at it, no regular file on the way to it)
  \<open>copy_and_process_file\<close> returns: it creates the parent directories and then does
  exactly what \<open>shutil.copy2\<close> does, for every table \<open>U\<close>, so the Content Transformer
  has no part in the result; the destination holds the bytes of the source, with
  its executable flag, and the source is unchanged.
\<close>

theorem binary_copied_raw:
  assumes src: "lookup fs source = Some (FileNode bytes x)"
    and undecodable: "utf8_decode bytes = None"
    and anc: "\<forall>k < length (segs dest). \<not> is_file fs (dest\<lparr>segs := take k (segs dest)\<rparr>)"
    and nd: "\<not> is_dir fs dest" and ds: "dest \<noteq> source"
  shows "\<exists>fs1 fs'. mkdir_parents fs (parent dest) = Inr fs1 \<and>
           copy_and_process_file U fs source dest = copy2 fs1 source dest \<and>
           copy2 fs1 source dest = Inr fs' \<and>
           fs' dest = Some (FileNode bytes x) \<and> fs' source = Some (FileNode bytes x)"
proof -
  have dne: "segs dest \<noteq> []" using nd by (auto simp: is_dir_def lookup_def)
  have sne: "segs source \<noteq> []" and fsrc: "fs source = Some (FileNode bytes x)"
    using src by (auto simp: lookup_def split: if_splits)
  have "\<forall>k \<le> length (segs (parent dest)).
          \<not> is_file fs ((parent dest)\<lparr>segs := take k (segs (parent dest))\<rparr>)"
  proof (intro allI impI)
    fix k assume "k \<le> length (segs (parent dest))"
    hence k: "k \<le> length (segs dest) - 1" by (simp add: parent_def)
    hence "k < length (segs dest)" using dne by (cases "segs dest") auto
    with anc have "\<not> is_file fs (dest\<lparr>segs := take k (segs dest)\<rparr>)" by blast
    thus "\<not> is_file fs ((parent dest)\<lparr>segs := take k (segs (parent dest))\<rparr>)"
      by (simp add: parent_take[OF k])
  qed
  from mkdir_parents_ok[OF this] obtain fs1 where
    m: "mkdir_parents fs (parent dest) = Inr fs1" and pd: "is_dir fs1 (parent dest)" and
    fr: "\<forall>q. fs1 q \<noteq> fs q \<longrightarrow> fs q = None \<and> fs1 q = Some DirNode \<and> prefix (segs q) (segs (parent dest))"
    by blast
  have s1: "fs1 source = Some (FileNode bytes x)"
  proof (cases "fs1 source = fs source")
    case True
    then show ?thesis by (simp add: fsrc)
  next
    case False
    with fr have "fs source = None" by blast
    with fsrc show ?thesis by simp
  qed
  hence l1: "lookup fs1 source = Some (FileNode bytes x)" using sne by (simp add: lookup_def)
  have "\<not> prefix (segs dest) (segs (parent dest))"
  proof
    assume "prefix (segs dest) (segs (parent dest))"
    hence "prefix (segs dest) (butlast (segs dest))" by (simp add: parent_def)
    from prefix_length_le[OF this]
    have "length (segs dest) \<le> length (butlast (segs dest))" .
    moreover have "0 < length (segs dest)" using dne by simp
    ultimately show False by (simp only: length_butlast)
  qed
  hence d1: "fs1 dest = fs dest" using fr by blast
  hence nd1: "\<not> is_dir fs1 dest"
    using nd by (auto simp: is_dir_def lookup_def split: if_splits)
  have ow: "open_w fs1 dest = None"
    using nd1 pd by (auto simp: open_w_def is_dir_def split: option.splits node.splits if_splits)
  have c2: "copy2 fs1 source dest = Inr (fs1(dest \<mapsto> FileNode bytes x))"
    using nd1 ds l1 ow by (simp add: copy2_def read_file_def)
  have cp: "copy_and_process_file U fs source dest = copy2 fs1 source dest"
    by (simp add: copy_and_process_file_def m l1 read_file_def read_text_def undecodable)
  show ?thesis using m cp c2 s1 ds by auto
qed

theorem binary_copied_raw_witness:
  "lookup example_tree (rel [S ''logo.png'']) = Some (FileNode [137, 80, 78, 71] False) \<and>
   utf8_decode [137, 80, 78, 71] = None \<and>
   (\<exists>fs'. copy_and_process_file ascii_ucd example_tree (rel [S ''logo.png''])
            (rel [S ''cookiecutter-output'', S ''{{cookiecutter.project_slug}}'', S ''logo.png''])
          = Inr fs' \<and>
        fs' (rel [S ''cookiecutter-output'', S ''{{cookiecutter.project_slug}}'', S ''logo.png''])
          = Some (FileNode [137, 80, 78, 71] False))"
proof -
  let ?src = "rel [S ''logo.png'']"
  let ?dest = "rel [S ''cookiecutter-output'', S ''{{cookiecutter.project_slug}}'', S ''logo.png'']"
  have 1: "lookup example_tree ?src = Some (FileNode [137, 80, 78, 71] False)"
    by (simp add: tree_eval)
  have 2: "utf8_decode [137, 80, 78, 71] = None" by simp
  have 3: "\<forall>k < length (segs ?dest). \<not> is_file example_tree (?dest\<lparr>segs := take k (segs ?dest)\<rparr>)"
    by (simp add: tree_eval All_less_Suc)
  have 4: "\<not> is_dir example_tree ?dest" by (simp add: tree_eval)
  have 5: "?dest \<noteq> ?src" by (simp add: rel_def)
  from binary_copied_raw[OF 1 2 3 4 5, of ascii_ucd] 1 2 show ?thesis by auto
qed

text \<open>
  A text file goes through the Content Transformer and keeps its executable flag
  (lines 358 to 360): the shell script of the example tree.
\<close>

lemma executable_text_file_copied:
  \<open>case copy_directory_structure ascii_ucd example_tree [rel [S ''run.sh'']] of
     Inl e \<Rightarrow> False
   | Inr fs' \<Rightarrow>
       fs' (rel [S ''cookiecutter-output'', S ''{{cookiecutter.project_slug}}'', S ''run.sh''])
         = Some (FileNode (S ''echo {{ '${#' }}a}'' @ [10]) True)\<close>
  by (simp add: tree_eval should_exclude_def EXCLUDE_PATTERNS_def get_template_path_def Let_def
      rename_part_def DIRECTORY_RENAMES_def path_of_parts_def path_join_def TEMPLATE_ROOT_def
      relative_to_source_def copy_and_process_file_def mkdir_parents.simps parent_def
      open_w_def read_file_def old_exec_def read_text_def encode_char_def
      process_text_content_def suffix_to_prefix shell_rules_def lit_def)

text \<open>
  C7 (as amended). For a regular file with a \<open>scratchpads\<close> segment, \<open>should_exclude\<close>
  is True when the file is not named \<open>.gitignore\<close>; for one named \<open>.gitignore\<close> it is
  False unless the file lies beneath a \<open>.git\<close> segment, where it is True. In the
  example tree \<open>scratchpads/notes.txt\<close> is excluded and \<open>scratchpads/.gitignore\<close> is
  kept; copying the latter writes its bytes to the rewritten path under the
  template root.
\<close>

theorem scratchpads_files:
  assumes "S ''scratchpads'' \<in> set (parts p)" and "is_file fs p"
  shows "should_exclude fs p = (name p \<noteq> S ''.gitignore'' \<or> inside_git p) \<and>
         should_exclude example_tree (rel [S ''scratchpads'', S ''notes.txt'']) \<and>
         \<not> should_exclude example_tree (rel [S ''scratchpads'', S ''.gitignore'']) \<and>
         (case copy_directory_structure ascii_ucd example_tree
                 [rel [S ''scratchpads'', S ''.gitignore'']] of
            Inl e \<Rightarrow> False
          | Inr fs' \<Rightarrow>
              fs' (rel [S ''cookiecutter-output'', S ''{{cookiecutter.project_slug}}'',
                        S ''scratchpads'', S ''.gitignore''])
                = Some (FileNode (S ''*'' @ [10]) False))"
proof -
  have nd: "\<not> is_dir fs p"
    using assms(2) by (auto simp: is_dir_def is_file_def split: option.splits node.splits)
  have "should_exclude fs p = (name p \<noteq> S ''.gitignore'' \<or> inside_git p)"
    using assms nd by (auto simp: should_exclude_def)
  moreover have "should_exclude example_tree (rel [S ''scratchpads'', S ''notes.txt''])"
    by (simp add: should_exclude_def tree_eval)
  moreover have "\<not> should_exclude example_tree (rel [S ''scratchpads'', S ''.gitignore''])"
    by (simp add: should_exclude_def tree_eval)
  moreover have "case copy_directory_structure ascii_ucd example_tree
                 [rel [S ''scratchpads'', S ''.gitignore'']] of
            Inl e \<Rightarrow> False
          | Inr fs' \<Rightarrow>
              fs' (rel [S ''cookiecutter-output'', S ''{{cookiecutter.project_slug}}'',
                        S ''scratchpads'', S ''.gitignore''])
                = Some (FileNode (S ''*'' @ [10]) False)"
    by (simp add: tree_eval should_exclude_def get_template_path_def Let_def rename_part_def
        DIRECTORY_RENAMES_def path_of_parts_def path_join_def TEMPLATE_ROOT_def
        relative_to_source_def copy_and_process_file_def mkdir_parents.simps parent_def
        open_w_def read_file_def old_exec_def read_text_def encode_char_def
        process_text_content_def suffix_to_prefix)
  ultimately show ?thesis by blast
qed

theorem scratchpads_files_witness:
  "S ''scratchpads'' \<in> set (parts (rel [S ''scratchpads'', S ''notes.txt''])) \<and>
   is_file example_tree (rel [S ''scratchpads'', S ''notes.txt'']) \<and>
   name (rel [S ''scratchpads'', S ''notes.txt'']) \<noteq> S ''.gitignore'' \<and>
   should_exclude example_tree (rel [S ''scratchpads'', S ''notes.txt''])"
  using scratchpads_files[of "rel [S ''scratchpads'', S ''notes.txt'']" example_tree]
  by (simp add: tree_eval)

text \<open>
  C7 as stated fails beneath a \<open>.git\<close> directory: \<open>scratchpads/.git/.gitignore\<close> is a
  regular file named \<open>.gitignore\<close> with a \<open>scratchpads\<close> segment, and it is excluded,
  because the test of line 89 comes first.
\<close>

theorem scratchpads_gitignore_in_git_excluded:
  "S ''scratchpads'' \<in> set (parts (rel [S ''scratchpads'', S ''.git'', S ''.gitignore''])) \<and>
   is_file example_tree (rel [S ''scratchpads'', S ''.git'', S ''.gitignore'']) \<and>
   name (rel [S ''scratchpads'', S ''.git'', S ''.gitignore'']) = S ''.gitignore'' \<and>
   should_exclude example_tree (rel [S ''scratchpads'', S ''.git'', S ''.gitignore''])"
  by (simp add: should_exclude_def tree_eval)

section \<open>Patterns that stay within a line\<close>

lemma first_down_Some:
  "first_down f n = Some r \<Longrightarrow> \<exists>k. 1 \<le> k \<and> k \<le> n \<and> f k = Some r"
proof (induction n)
  case 0
  then show ?case by simp
next
  case (Suc n)
  show ?case
  proof (cases "f (Suc n)")
    case None
    with Suc obtain k where "1 \<le> k" "k \<le> n" "f k = Some r" by auto
    then show ?thesis by (intro exI[of _ k]) simp
  next
    case (Some a)
    with Suc.prems have "f (Suc n) = Some r" by simp
    then show ?thesis by (intro exI[of _ "Suc n"]) simp
  qed
qed

lemma first_down_cong:
  "(\<And>k. 1 \<le> k \<Longrightarrow> k \<le> n \<Longrightarrow> f k = g k) \<Longrightarrow> first_down f n = first_down g n"
proof (induction n)
  case 0
  then show ?case by simp
next
  case (Suc n)
  have "first_down f n = first_down g n" by (rule Suc.IH) (simp_all add: Suc.prems)
  moreover have "f (Suc n) = g (Suc n)" by (rule Suc.prems) simp_all
  ultimately show ?case by (simp cong: option.case_cong)
qed

lemma rmatch_le: "rmatch U pat prev s = Some n \<Longrightarrow> n \<le> length s"
proof (induction pat arbitrary: prev s n)
  case Nil
  then show ?case by simp
next
  case (Cons a pat)
  show ?case
  proof (cases a)
    case (Chr c)
    with Cons.prems obtain x xs m where s: "s = x # xs" and "rmatch U pat (Some x) xs = Some m"
      and n: "n = Suc m"
      by (auto split: list.splits if_splits)
    with Cons.IH show ?thesis by auto
  next
    case (Plus C)
    let ?f = "\<lambda>k. map_option (\<lambda>n. k + n) (rmatch U pat (Some (s ! (k - 1))) (drop k s))"
    from Cons.prems Plus have "first_down ?f (length (takeWhile (in_cls U C) s)) = Some n"
      by simp
    from first_down_Some[OF this] obtain k where k: "k \<le> length (takeWhile (in_cls U C) s)"
      and fk: "?f k = Some n" by blast
    from fk obtain m where m: "rmatch U pat (Some (s ! (k - 1))) (drop k s) = Some m"
      and n: "n = k + m" by auto
    from Cons.IH[OF m] have "m \<le> length s - k" by simp
    moreover have "k \<le> length s" using k length_takeWhile_le[of "in_cls U C" s] by simp
    ultimately show ?thesis by (simp add: n)
  next
    case WordBoundary
    with Cons show ?thesis by (auto split: if_splits)
  next
    case LineStart
    with Cons show ?thesis by (auto split: if_splits)
  qed
qed

lemma newline_not_cls: "C \<noteq> NotQuote \<Longrightarrow> \<not> in_cls U C 10"
  by (cases C) (simp_all add: word_char_def is_alnum_def is_decimal_def)

lemma rmatch_line:
  "list_all simple_atom pat \<Longrightarrow> 10 \<notin> set l \<Longrightarrow>
     rmatch U pat prev (l @ 10 # rest) = rmatch U pat prev' l"
proof (induction pat arbitrary: l prev prev')
  case Nil
  then show ?case by simp
next
  case (Cons a pat)
  note IH = Cons.IH and nl = Cons.prems(2)
  from Cons.prems have sp: "list_all simple_atom pat" and sa: "simple_atom a" by simp_all
  show ?case
  proof (cases a)
    case (Chr c)
    with sa have c: "c \<noteq> 10" by simp
    show ?thesis
    proof (cases l)
      case Nil
      with c Chr show ?thesis by simp
    next
      case (Cons x xs)
      with nl have "10 \<notin> set xs" by simp
      hence "rmatch U pat (Some x) (xs @ 10 # rest) = rmatch U pat (Some x) xs"
        by (rule IH[OF sp])
      then show ?thesis by (auto simp: Chr Cons)
    qed
  next
    case (Plus C)
    with sa have nq: "\<not> in_cls U C 10" by (simp add: newline_not_cls)
    have tw: "takeWhile (in_cls U C) (l @ 10 # rest) = takeWhile (in_cls U C) l"
      using nq by (simp add: takeWhile_tail)
    have "first_down
           (\<lambda>k. map_option (\<lambda>n. k + n)
              (rmatch U pat (Some ((l @ 10 # rest) ! (k - 1))) (drop k (l @ 10 # rest))))
           (length (takeWhile (in_cls U C) l))
        = first_down
           (\<lambda>k. map_option (\<lambda>n. k + n) (rmatch U pat (Some (l ! (k - 1))) (drop k l)))
           (length (takeWhile (in_cls U C) l))"
    proof (rule first_down_cong)
      fix k assume k1: "1 \<le> k" and k2: "k \<le> length (takeWhile (in_cls U C) l)"
      hence kl: "k \<le> length l" using length_takeWhile_le[of "in_cls U C" l] by simp
      have "10 \<notin> set (drop k l)" using nl by (auto dest: in_set_dropD)
      hence "rmatch U pat (Some ((l @ 10 # rest) ! (k - 1))) (drop k l @ 10 # rest)
               = rmatch U pat (Some (l ! (k - 1))) (drop k l)"
        by (rule IH[OF sp])
      with kl
      show "map_option (\<lambda>n. k + n)
              (rmatch U pat (Some ((l @ 10 # rest) ! (k - 1))) (drop k (l @ 10 # rest)))
            = map_option (\<lambda>n. k + n) (rmatch U pat (Some (l ! (k - 1))) (drop k l))"
        by simp
    qed
    then show ?thesis by (simp add: Plus tw)
  next
    case WordBoundary
    with sa show ?thesis by simp
  next
    case LineStart
    with sa show ?thesis by simp
  qed
qed

lemma rmatch_prev:
  "list_all simple_atom pat \<Longrightarrow> rmatch U pat prev s = rmatch U pat prev' s"
proof (induction pat arbitrary: s prev prev')
  case Nil
  then show ?case by simp
next
  case (Cons a pat)
  from Cons.prems have sp: "list_all simple_atom pat" and sa: "simple_atom a" by simp_all
  show ?case
  proof (cases a)
    case (Chr c)
    then show ?thesis by simp
  next
    case (Plus C)
    then show ?thesis by simp
  next
    case WordBoundary
    with sa show ?thesis by simp
  next
    case LineStart
    with sa show ?thesis by simp
  qed
qed

lemma re_sub_prev:
  "list_all simple_atom pat \<Longrightarrow> re_sub U pat r prev s = re_sub U pat r prev' s"
proof (induction "length s" arbitrary: s prev prev' rule: less_induct)
  case less
  note sp = less.prems
  show ?case
  proof (cases s)
    case Nil
    then show ?thesis by simp
  next
    case (Cons c cs)
    have m: "rmatch U pat prev (c # cs) = rmatch U pat prev' (c # cs)"
      by (rule rmatch_prev[OF sp])
    show ?thesis
    proof (cases "rmatch U pat prev' (c # cs)")
      case None
      have "re_sub U pat r (Some c) cs = re_sub U pat r (Some c) cs" ..
      with None m show ?thesis by (simp add: Cons)
    next
      case (Some n)
      show ?thesis
      proof (cases n)
        case 0
        with Some m show ?thesis by (simp add: Cons)
      next
        case (Suc k)
        have "length (drop k cs) < length s" by (simp add: Cons)
        from less.hyps[OF this sp] Some m Suc show ?thesis by (simp add: Cons)
      qed
    qed
  qed
qed

lemma re_sub_line:
  "list_all simple_atom pat \<Longrightarrow> 10 \<notin> set l \<Longrightarrow>
     re_sub U pat r prev (l @ 10 # rest)
       = re_sub U pat r prev l @ 10 # re_sub U pat r (Some 10) rest"
proof (induction "length l" arbitrary: l prev rule: less_induct)
  case less
  note sp = less.prems(1) and nl = less.prems(2)
  show ?case
  proof (cases l)
    case Nil
    have "rmatch U pat prev ([] @ 10 # rest) = rmatch U pat prev []"
      by (rule rmatch_line[OF sp]) simp
    moreover have "rmatch U pat prev [] \<noteq> Some (Suc k)" for k
      using rmatch_le[of U pat prev "[]" "Suc k"] by auto
    ultimately show ?thesis
      by (cases "rmatch U pat prev []") (auto simp: Nil split: nat.splits)
  next
    case (Cons c cs)
    have m: "rmatch U pat prev ((c # cs) @ 10 # rest) = rmatch U pat prev (c # cs)"
      by (rule rmatch_line[OF sp]) (use nl Cons in simp)
    have ncs: "10 \<notin> set cs" using nl Cons by simp
    show ?thesis
    proof (cases "rmatch U pat prev (c # cs)")
      case None
      have "length cs < length l" by (simp add: Cons)
      from less.hyps[OF this sp ncs] None m show ?thesis by (simp add: Cons)
    next
      case (Some n)
      show ?thesis
      proof (cases n)
        case 0
        have "length cs < length l" by (simp add: Cons)
        from less.hyps[OF this sp ncs] Some 0 m show ?thesis by (simp add: Cons)
      next
        case (Suc k)
        from rmatch_le[OF Some] Suc have k: "k \<le> length cs" by simp
        have "length (drop k cs) < length l" by (simp add: Cons)
        moreover have "10 \<notin> set (drop k cs)" using ncs by (auto dest: in_set_dropD)
        ultimately have
          "re_sub U pat r (Some ((c # cs) ! k)) (drop k cs @ 10 # rest)
             = re_sub U pat r (Some ((c # cs) ! k)) (drop k cs) @ 10 # re_sub U pat r (Some 10) rest"
          using less.hyps sp by blast
        moreover have "re_sub U pat r (Some ((c # cs @ 10 # rest) ! k)) (drop k cs @ 10 # rest)
             = re_sub U pat r (Some ((c # cs) ! k)) (drop k cs @ 10 # rest)"
          by (rule re_sub_prev[OF sp])
        ultimately show ?thesis using Some Suc m k by (simp add: Cons)
      qed
    qed
  qed
qed

lemma re_sub_set: "set (re_sub U pat r prev s) \<subseteq> set r \<union> set s"
proof (induction "length s" arbitrary: s prev rule: less_induct)
  case less
  show ?case
  proof (cases s)
    case Nil
    then show ?thesis by simp
  next
    case (Cons c cs)
    have a: "set (re_sub U pat r p' cs) \<subseteq> set r \<union> set cs" for p'
      by (rule less.hyps) (simp add: Cons)
    have b: "set (re_sub U pat r p' (drop k cs)) \<subseteq> set r \<union> set (drop k cs)" for p' k
      by (rule less.hyps) (simp add: Cons)
    have c: "set (drop k cs) \<subseteq> set cs" for k by (rule set_drop_subset)
    show ?thesis
      using a b c by (auto simp: Cons split: option.splits nat.splits) blast+
  qed
qed

lemma re_search_none:
  "\<not> re_search U pat prev s \<Longrightarrow> re_sub U pat r prev s = s"
  by (induction s arbitrary: prev) auto

lemma re_sub_join:
  "list_all simple_atom pat \<Longrightarrow> \<forall>l \<in> set ls. 10 \<notin> set l \<Longrightarrow>
     re_sub U pat r None (join_with [10] ls) = join_with [10] (map (re_sub U pat r None) ls)"
proof (induction "[10::nat]" ls rule: join_with.induct)
  case 1
  then show ?case by simp
next
  case (2 x)
  then show ?case by simp
next
  case (3 x y ys)
  have "re_sub U pat r None (x @ 10 # join_with [10] (y # ys))
          = re_sub U pat r None x @ 10 # re_sub U pat r (Some 10) (join_with [10] (y # ys))"
    by (rule re_sub_line) (use 3 in simp_all)
  also have "re_sub U pat r (Some 10) (join_with [10] (y # ys))
          = re_sub U pat r None (join_with [10] (y # ys))"
    by (rule re_sub_prev) (use 3 in simp)
  finally show ?case using 3 by simp
qed

lemma apply_rules_lines:
  "list_all (\<lambda>(pat, r). list_all simple_atom pat \<and> 10 \<notin> set r) rules \<Longrightarrow>
   \<forall>l \<in> set ls. 10 \<notin> set l \<Longrightarrow>
     apply_rules U rules (join_with [10] ls) = join_with [10] (map (apply_rules U rules) ls)"
proof (induction rules arbitrary: ls)
  case Nil
  then show ?case by simp
next
  case (Cons a rules)
  obtain pat r where a: "a = (pat, r)" by (cases a)
  from Cons.prems(1) have sp: "list_all simple_atom pat" and nr: "10 \<notin> set r"
    and rest: "list_all (\<lambda>(pat, r). list_all simple_atom pat \<and> 10 \<notin> set r) rules"
    by (simp_all add: a)
  have nl: "\<forall>l \<in> set (map (re_sub U pat r None) ls). 10 \<notin> set l"
    using Cons.prems(2) nr re_sub_set[of U pat r None] by fastforce
  show ?case
    by (simp add: a re_sub_join[OF sp Cons.prems(2)] Cons.IH[OF rest nl] comp_def)
qed

lemma apply_rules_unchanged:
  "list_all (\<lambda>(pat, r). \<not> re_search U pat None l) rules \<Longrightarrow> apply_rules U rules l = l"
  by (induction rules) (auto simp: re_search_none)

lemma rmatch_lit_append:
  "rmatch U (lit a @ pat) prev s =
     (if prefix a s
      then map_option (\<lambda>n. length a + n)
             (rmatch U pat (if a = [] then prev else Some (last a)) (drop (length a) s))
      else None)"
proof (induction a arbitrary: prev s)
  case Nil
  show ?case by (cases "rmatch U pat prev s") (simp_all add: lit_def)
next
  case (Cons x a)
  show ?case
  proof (cases s)
    case Nil
    then show ?thesis by (simp add: lit_def)
  next
    case (Cons y ys)
    show ?thesis
      using Cons.IH[of "Some x" ys, unfolded lit_def]
      by (auto simp: lit_def Cons option.map_comp comp_def)
  qed
qed

lemma plus_greedy:
  assumes "list_all (in_cls U C) a" and "a \<noteq> []"
    and "case t of [] \<Rightarrow> True | x # _ \<Rightarrow> \<not> in_cls U C x"
    and "rmatch U pat (Some (last a)) t = Some m"
  shows "rmatch U (Plus C # pat) prev (a @ t) = Some (length a + m)"
proof -
  have "takeWhile (in_cls U C) t = []" using assms(3) by (cases t) auto
  hence tw: "takeWhile (in_cls U C) (a @ t) = a"
    using assms(1) by (simp add: takeWhile_append2 list_all_iff)
  obtain k where k: "length a = Suc k" using assms(2) by (cases a) auto
  have la: "(a @ t) ! k = last a"
    using k assms(2) by (simp add: nth_append last_conv_nth)
  define f where
    "f = (\<lambda>j. map_option (\<lambda>n. j + n) (rmatch U pat (Some ((a @ t) ! (j - 1))) (drop j (a @ t))))"
  have r: "rmatch U (Plus C # pat) prev (a @ t) = first_down f (length a)"
    by (simp add: tw f_def)
  have "f (Suc k) = Some (Suc k + m)"
    using assms(4) la k by (simp add: f_def)
  hence "first_down f (Suc k) = Some (Suc k + m)" by simp
  thus ?thesis by (simp only: r k)
qed

lemma re_sub_full:
  "rmatch U pat prev s = Some (length s) \<Longrightarrow> s \<noteq> [] \<Longrightarrow> re_sub U pat r prev s = r"
  by (cases s) auto

lemma sublist_split:
  assumes "c \<notin> set a" and "c \<notin> set w" and "sublist (b @ c # d) (a @ c # w)"
  shows "suffix b a \<and> prefix d w"
proof -
  from assms(3) obtain u v where "a @ c # w = u @ (b @ c # d) @ v"
    by (auto simp: sublist_def)
  hence "a @ c # w = (u @ b) @ c # (d @ v)" by simp
  with assms(1,2) have "a = u @ b" and "w = d @ v"
    using append_Cons_eq_iff[of c a w "u @ b" "d @ v"] by auto
  thus ?thesis by (auto simp: suffix_def prefix_def)
qed

lemma re_search_lit_absent:
  "\<not> sublist a s \<Longrightarrow> a \<noteq> [] \<Longrightarrow> \<not> re_search U (lit a @ pat) prev s"
proof (induction s arbitrary: prev)
  case Nil
  then show ?case by (simp add: rmatch_lit_append)
next
  case (Cons c cs)
  from Cons.prems(1) have "\<not> prefix a (c # cs)" and "\<not> sublist a cs"
    by (simp_all add: sublist_Cons_right)
  with Cons.IH[OF _ Cons.prems(2)] show ?case by (simp add: rmatch_lit_append)
qed

section \<open>The environment file\<close>

lemma dispatch_env:
  "name p = S ''.env'' \<Longrightarrow> process_text_content U c p = apply_rules U env_rules c"
  by (simp add: process_text_content_def S_def)

lemma env_rules_simple:
  "list_all (\<lambda>(pat, r). list_all simple_atom pat \<and> 10 \<notin> set r) env_rules"
  by (simp add: env_rules_def lit_def S_def)

lemma eq_not_word: "list_all (word_char U) w \<Longrightarrow> 61 \<notin> set w"
  by (auto simp: list_all_iff word_char_def is_alnum_def)

lemma eq_not_digit: "list_all (is_decimal U) w \<Longrightarrow> 61 \<notin> set w"
  by (auto simp: list_all_iff is_decimal_def)

lemma in_cls_eta: "in_cls U Word = word_char U" "in_cls U Digit = is_decimal U"
  by (rule ext, simp)+

lemma image_name_ne: "S ''IMAGE_NAME=template'' \<noteq> []"
  by (simp add: S_def)

lemma env_image_name:
  "apply_rules U env_rules (S ''IMAGE_NAME=template'')
     = S ''IMAGE_NAME={{cookiecutter.docker_image_name}}''"
  by (simp add: env_rules_def lit_def S_def)

lemma env_user_name:
  assumes "w \<noteq> []" and "list_all (word_char U) w"
  shows "apply_rules U env_rules (S ''USER_NAME='' @ w) = S ''USER_NAME={{cookiecutter.user_name}}''"
proof -
  let ?s = "S ''USER_NAME='' @ w"
  have s: "?s = S ''USER_NAME'' @ 61 # w" by (simp add: S_def)
  have "\<not> sublist (S ''IMAGE_NAME'' @ 61 # S ''template'') (S ''USER_NAME'' @ 61 # w)"
  proof
    assume "sublist (S ''IMAGE_NAME'' @ 61 # S ''template'') (S ''USER_NAME'' @ 61 # w)"
    from sublist_split[OF _ eq_not_word[OF assms(2)] this]
    have "suffix (S ''IMAGE_NAME'') (S ''USER_NAME'')" by (simp add: S_def)
    thus False by (simp add: S_def suffix_to_prefix)
  qed
  hence ns: "\<not> sublist (S ''IMAGE_NAME=template'') ?s" by (simp add: S_def)
  have 1: "re_sub U (lit (S ''IMAGE_NAME=template'')) r None ?s = ?s" for r
    unfolding re_sub_lit[OF image_name_ne] by (rule str_replace_absent[OF ns])
  have "rmatch U [Plus Word] (Some 61) (w @ []) = Some (length w + 0)"
    by (rule plus_greedy) (use assms in \<open>simp_all add: in_cls_eta\<close>)
  hence "rmatch U (lit (S ''USER_NAME='') @ [Plus Word]) None ?s = Some (length ?s)"
    by (simp add: rmatch_lit_append S_def)
  hence 2: "re_sub U (lit (S ''USER_NAME='') @ [Plus Word]) r None ?s = r" for r
    by (rule re_sub_full) (simp add: S_def)
  have 3: "re_sub U (lit (S ''IMAGE_VERSION=v'') @ [Plus Digit] @ lit (S ''.'') @ [Plus Digit]
                     @ lit (S ''.'') @ [Plus Digit]) r None (S ''USER_NAME={{cookiecutter.user_name}}'')
             = S ''USER_NAME={{cookiecutter.user_name}}''" for r
    by (simp add: lit_def S_def)
  show ?thesis
    by (simp only: env_rules_def apply_rules.simps 1 2 3)
qed

lemma env_image_version:
  assumes "x \<noteq> []" "y \<noteq> []" "z \<noteq> []"
    and "list_all (is_decimal U) x" "list_all (is_decimal U) y" "list_all (is_decimal U) z"
  shows "apply_rules U env_rules (S ''IMAGE_VERSION=v'' @ x @ S ''.'' @ y @ S ''.'' @ z)
           = S ''IMAGE_VERSION={{cookiecutter.docker_image_version}}''"
proof -
  let ?t = "S ''v'' @ x @ S ''.'' @ y @ S ''.'' @ z"
  let ?s = "S ''IMAGE_VERSION=v'' @ x @ S ''.'' @ y @ S ''.'' @ z"
  have s: "?s = S ''IMAGE_VERSION'' @ 61 # ?t" by (simp add: S_def)
  have nt: "61 \<notin> set ?t"
    using eq_not_digit[OF assms(4)] eq_not_digit[OF assms(5)] eq_not_digit[OF assms(6)]
    by (simp add: S_def)
  have ni: "61 \<notin> set (S ''IMAGE_VERSION'')" by (simp add: S_def)
  have "\<not> sublist (S ''IMAGE_NAME'' @ 61 # S ''template'') (S ''IMAGE_VERSION'' @ 61 # ?t)"
  proof
    assume "sublist (S ''IMAGE_NAME'' @ 61 # S ''template'') (S ''IMAGE_VERSION'' @ 61 # ?t)"
    from sublist_split[OF ni nt this]
    have "suffix (S ''IMAGE_NAME'') (S ''IMAGE_VERSION'')" by simp
    thus False by (simp add: S_def suffix_to_prefix)
  qed
  hence ns: "\<not> sublist (S ''IMAGE_NAME=template'') ?s" by (simp add: S_def)
  have 1: "re_sub U (lit (S ''IMAGE_NAME=template'')) r None ?s = ?s" for r
    unfolding re_sub_lit[OF image_name_ne] by (rule str_replace_absent[OF ns])
  have "\<not> sublist (S ''USER_NAME'' @ 61 # []) (S ''IMAGE_VERSION'' @ 61 # ?t)"
  proof
    assume "sublist (S ''USER_NAME'' @ 61 # []) (S ''IMAGE_VERSION'' @ 61 # ?t)"
    from sublist_split[OF ni nt this]
    have "suffix (S ''USER_NAME'') (S ''IMAGE_VERSION'')" by simp
    thus False by (simp add: S_def suffix_to_prefix)
  qed
  hence "\<not> sublist (S ''USER_NAME='') ?s" by (simp add: S_def)
  hence "\<not> re_search U (lit (S ''USER_NAME='') @ [Plus Word]) None ?s"
    by (rule re_search_lit_absent) (simp add: S_def)
  hence 2: "re_sub U (lit (S ''USER_NAME='') @ [Plus Word]) r None ?s = ?s" for r
    by (rule re_search_none)
  have dot: "\<not> in_cls U Digit 46" by (simp add: is_decimal_def)
  have mz: "rmatch U [Plus Digit] (Some 46) (z @ []) = Some (length z + 0)"
    by (rule plus_greedy) (use assms in \<open>simp_all add: in_cls_eta\<close>)
  have "rmatch U (lit (S ''.'') @ [Plus Digit]) (Some (last y)) (S ''.'' @ z) = Some (1 + length z)"
    using mz by (simp add: rmatch_lit_append S_def)
  hence "rmatch U (Plus Digit # lit (S ''.'') @ [Plus Digit]) (Some 46) (y @ S ''.'' @ z)
           = Some (length y + (1 + length z))"
    by (intro plus_greedy) (use assms dot in \<open>simp_all add: S_def in_cls_eta\<close>)
  hence "rmatch U (lit (S ''.'') @ Plus Digit # lit (S ''.'') @ [Plus Digit]) (Some (last x))
            (S ''.'' @ y @ S ''.'' @ z)
           = Some (1 + (length y + (1 + length z)))"
    by (simp add: rmatch_lit_append S_def)
  hence "rmatch U (Plus Digit # lit (S ''.'') @ Plus Digit # lit (S ''.'') @ [Plus Digit])
            (Some 118) (x @ S ''.'' @ y @ S ''.'' @ z)
           = Some (length x + (1 + (length y + (1 + length z))))"
    by (intro plus_greedy) (use assms dot in \<open>simp_all add: S_def in_cls_eta\<close>)
  hence "rmatch U (lit (S ''IMAGE_VERSION=v'') @ [Plus Digit] @ lit (S ''.'') @ [Plus Digit]
                     @ lit (S ''.'') @ [Plus Digit]) None ?s = Some (length ?s)"
    by (simp add: rmatch_lit_append S_def)
  hence 3: "re_sub U (lit (S ''IMAGE_VERSION=v'') @ [Plus Digit] @ lit (S ''.'') @ [Plus Digit]
                     @ lit (S ''.'') @ [Plus Digit]) r None ?s = r" for r
    by (rule re_sub_full) (simp add: S_def)
  show ?thesis
    by (simp only: env_rules_def apply_rules.simps 1 2 3)
qed

section \<open>Counting braces\<close>

lemma braces_simps [simp]:
  "braces [] = 0" "braces (c # cs) = (if c = 123 then Suc (braces cs) else braces cs)"
  "braces (a @ b) = braces a + braces b"
  by (simp_all add: braces_def)

lemma braces_zero: "123 \<notin> set s \<Longrightarrow> braces s = 0"
  by (induction s) auto

lemma brace_not_cls: "C \<noteq> NotQuote \<Longrightarrow> \<not> in_cls U C 123"
  by (cases C) (simp_all add: word_char_def is_alnum_def is_decimal_def)

lemma take_takeWhile:
  "k \<le> length (takeWhile P s) \<Longrightarrow> x \<in> set (take k s) \<Longrightarrow> P x"
proof (induction s arbitrary: k)
  case Nil
  then show ?case by simp
next
  case (Cons a s)
  show ?case
  proof (cases k)
    case 0
    with Cons.prems show ?thesis by simp
  next
    case (Suc j)
    with Cons.prems have pa: "P a" and j: "j \<le> length (takeWhile P s)"
      by (auto split: if_splits)
    from Cons.prems(2) Suc have "x = a \<or> x \<in> set (take j s)" by simp
    with pa Cons.IH[OF j] show ?thesis by blast
  qed
qed

lemma rmatch_brace_free:
  "list_all brace_free pat \<Longrightarrow> rmatch U pat prev s = Some n \<Longrightarrow> 123 \<notin> set (take n s)"
proof (induction pat arbitrary: prev s n)
  case Nil
  then show ?case by simp
next
  case (Cons a pat)
  note IH = Cons.IH
  from Cons.prems have bp: "list_all brace_free pat" and ba: "brace_free a" by simp_all
  show ?case
  proof (cases a)
    case (Chr c)
    with Cons.prems(2) obtain xs m where s: "s = c # xs" and m: "rmatch U pat (Some c) xs = Some m"
      and n: "n = Suc m"
      by (auto split: list.splits if_splits)
    from IH[OF bp m] ba Chr show ?thesis by (simp add: s n)
  next
    case (Plus C)
    let ?f = "\<lambda>k. map_option (\<lambda>n. k + n) (rmatch U pat (Some (s ! (k - 1))) (drop k s))"
    from Cons.prems(2) Plus have "first_down ?f (length (takeWhile (in_cls U C) s)) = Some n"
      by simp
    from first_down_Some[OF this] obtain k where k: "k \<le> length (takeWhile (in_cls U C) s)"
      and fk: "?f k = Some n" by blast
    from fk obtain m where m: "rmatch U pat (Some (s ! (k - 1))) (drop k s) = Some m"
      and n: "n = k + m" by auto
    have 1: "123 \<notin> set (take m (drop k s))" by (rule IH[OF bp m])
    have 2: "123 \<notin> set (take k s)"
      using take_takeWhile[OF k] brace_not_cls[of C U] ba Plus by auto
    have "take n s = take k s @ take m (drop k s)" by (simp add: n take_add)
    with 1 2 show ?thesis by simp
  next
    case WordBoundary
    with Cons.prems IH[OF bp] show ?thesis by (auto split: if_splits)
  next
    case LineStart
    with Cons.prems IH[OF bp] show ?thesis by (auto split: if_splits)
  qed
qed

lemma rmatch_nonzero: "starts_with_chr pat \<Longrightarrow> rmatch U pat prev s \<noteq> Some 0"
  by (auto simp: starts_with_chr_def split: list.splits atom.splits if_splits)

lemma braces_take_drop: "braces s = braces (take n s) + braces (drop n s)"
  by (metis append_take_drop_id braces_simps(3))

lemma re_sub_braces_mono:
  "list_all brace_free pat \<Longrightarrow> braces s \<le> braces (re_sub U pat r prev s)"
proof (induction "length s" arbitrary: s prev rule: less_induct)
  case less
  note bf = less.prems
  show ?case
  proof (cases s)
    case Nil
    then show ?thesis by simp
  next
    case (Cons c cs)
    have a: "braces cs \<le> braces (re_sub U pat r p' cs)" for p'
      by (rule less.hyps) (simp_all add: Cons bf)
    show ?thesis
    proof (cases "rmatch U pat prev (c # cs)")
      case None
      with a show ?thesis by (simp add: Cons)
    next
      case (Some n)
      show ?thesis
      proof (cases n)
        case 0
        with Some a show ?thesis by (simp add: Cons)
      next
        case (Suc k)
        have b: "braces (drop k cs) \<le> braces (re_sub U pat r p' (drop k cs))" for p'
          by (rule less.hyps) (simp_all add: Cons bf)
        from rmatch_brace_free[OF bf Some] have "braces (take (Suc k) (c # cs)) = 0"
          unfolding Suc by (rule braces_zero)
        hence "braces (c # cs) = braces (drop k cs)"
          using braces_take_drop[of "c # cs" "Suc k"] by simp
        with b[of "Some ((c # cs) ! k)"] Some Suc show ?thesis by (simp add: Cons)
      qed
    qed
  qed
qed

lemma re_sub_braces_strict:
  "list_all brace_free pat \<Longrightarrow> starts_with_chr pat \<Longrightarrow> 0 < braces r \<Longrightarrow>
     re_search U pat prev s \<Longrightarrow> braces s < braces (re_sub U pat r prev s)"
proof (induction s arbitrary: prev)
  case Nil
  from Nil.prems(4) obtain n where n: "rmatch U pat prev [] = Some n" by auto
  from rmatch_le[OF n] have "n = 0" by simp
  with n rmatch_nonzero[OF Nil.prems(2)] show ?case by blast
next
  case (Cons c cs)
  note bf = Cons.prems(1) and sw = Cons.prems(2) and br = Cons.prems(3)
  show ?case
  proof (cases "rmatch U pat prev (c # cs)")
    case None
    with Cons.prems(4) have "re_search U pat (Some c) cs" by simp
    from Cons.IH[OF bf sw br this] None show ?thesis by auto
  next
    case (Some n)
    then obtain k where k: "n = Suc k"
      using rmatch_nonzero[OF sw, of U prev "c # cs"] by (cases n) auto
    have b: "braces (drop k cs) \<le> braces (re_sub U pat r (Some ((c # cs) ! k)) (drop k cs))"
      by (rule re_sub_braces_mono[OF bf])
    from rmatch_brace_free[OF bf Some] have "braces (take (Suc k) (c # cs)) = 0"
      unfolding k by (rule braces_zero)
    hence "braces (c # cs) = braces (drop k cs)"
      using braces_take_drop[of "c # cs" "Suc k"] by simp
    with b br Some k show ?thesis by simp
  qed
qed

lemma apply_rules_braces_mono:
  "list_all (\<lambda>(pat, r). list_all brace_free pat) rules \<Longrightarrow>
     braces l \<le> braces (apply_rules U rules l)"
proof (induction rules arbitrary: l)
  case Nil
  then show ?case by simp
next
  case (Cons a rules)
  obtain pat r where a: "a = (pat, r)" by (cases a)
  from Cons.prems have bf: "list_all brace_free pat"
    and rest: "list_all (\<lambda>(pat, r). list_all brace_free pat) rules" by (simp_all add: a)
  have "braces l \<le> braces (re_sub U pat r None l)" by (rule re_sub_braces_mono[OF bf])
  also have "\<dots> \<le> braces (apply_rules U rules (re_sub U pat r None l))" by (rule Cons.IH[OF rest])
  finally show ?case by (simp add: a)
qed

lemma apply_rules_braces_strict:
  "list_all (\<lambda>(pat, r). list_all brace_free pat \<and> starts_with_chr pat \<and> 0 < braces r) rules \<Longrightarrow>
   list_ex (\<lambda>(pat, r). re_search U pat None l) rules \<Longrightarrow>
     braces l < braces (apply_rules U rules l)"
proof (induction rules arbitrary: l)
  case Nil
  then show ?case by simp
next
  case (Cons a rules)
  obtain pat r where a: "a = (pat, r)" by (cases a)
  from Cons.prems(1) have bf: "list_all brace_free pat" and sw: "starts_with_chr pat"
    and br: "0 < braces r"
    and rest: "list_all (\<lambda>(pat, r). list_all brace_free pat \<and> starts_with_chr pat \<and> 0 < braces r) rules"
    by (simp_all add: a)
  have rest': "list_all (\<lambda>(pat, r). list_all brace_free pat) rules"
    using rest by (auto simp: list_all_iff)
  show ?case
  proof (cases "re_search U pat None l")
    case True
    have "braces l < braces (re_sub U pat r None l)"
      by (rule re_sub_braces_strict[OF bf sw br True])
    also have "\<dots> \<le> braces (apply_rules U rules (re_sub U pat r None l))"
      by (rule apply_rules_braces_mono[OF rest'])
    finally show ?thesis by (simp add: a)
  next
    case False
    hence same: "re_sub U pat r None l = l" by (rule re_search_none)
    from Cons.prems(2) False have "list_ex (\<lambda>(pat, r). re_search U pat None l) rules"
      by (simp add: a)
    from Cons.IH[OF rest this] show ?thesis by (simp add: a same)
  qed
qed

lemma env_rules_braces:
  "list_all (\<lambda>(pat, r). list_all brace_free pat \<and> starts_with_chr pat \<and> 0 < braces r) env_rules"
  by (simp add: env_rules_def lit_def S_def starts_with_chr_def)

lemma env_unchanged_iff:
  "(apply_rules U env_rules l = l) = list_all (\<lambda>(pat, r). \<not> re_search U pat None l) env_rules"
proof
  assume eq: "apply_rules U env_rules l = l"
  show "list_all (\<lambda>(pat, r). \<not> re_search U pat None l) env_rules"
  proof (rule ccontr)
    assume "\<not> list_all (\<lambda>(pat, r). \<not> re_search U pat None l) env_rules"
    hence "list_ex (\<lambda>(pat, r). re_search U pat None l) env_rules"
      by (auto simp: list_all_iff list_ex_iff)
    from apply_rules_braces_strict[OF env_rules_braces this] eq show False by simp
  qed
next
  assume "list_all (\<lambda>(pat, r). \<not> re_search U pat None l) env_rules"
  thus "apply_rules U env_rules l = l" by (rule apply_rules_unchanged)
qed

text \<open>
  C6 (as amended). For a file named \<open>.env\<close> the transformation works line by line:
  the result for lines joined by newlines is the join of the results for each line.
  The line \<open>IMAGE_NAME=template\<close> becomes the line with the image-name placeholder; a
  line \<open>USER_NAME=w\<close> becomes the line with the user-name placeholder for every
  non-empty \<open>w\<close> of word characters; a line \<open>IMAGE_VERSION=vX.Y.Z\<close> becomes the line
  with the image-version placeholder for all non-empty runs of digits \<open>X\<close>, \<open>Y\<close>,
  \<open>Z\<close>. A line is left as it is exactly when none of the three patterns occurs
  anywhere in it; an occurrence inside a longer line is replaced.
\<close>

theorem env_file_lines:
  assumes "name p = S ''.env''"
  shows "((\<forall>l \<in> set ls. 10 \<notin> set l) \<longrightarrow>
            process_text_content U (join_with [10] ls) p
              = join_with [10] (map (\<lambda>l. process_text_content U l p) ls)) \<and>
         process_text_content U (S ''IMAGE_NAME=template'') p
           = S ''IMAGE_NAME={{cookiecutter.docker_image_name}}'' \<and>
         (w \<noteq> [] \<and> list_all (word_char U) w \<longrightarrow>
            process_text_content U (S ''USER_NAME='' @ w) p
              = S ''USER_NAME={{cookiecutter.user_name}}'') \<and>
         (x \<noteq> [] \<and> y \<noteq> [] \<and> z \<noteq> [] \<and>
          list_all (is_decimal U) x \<and> list_all (is_decimal U) y \<and> list_all (is_decimal U) z \<longrightarrow>
            process_text_content U (S ''IMAGE_VERSION=v'' @ x @ S ''.'' @ y @ S ''.'' @ z) p
              = S ''IMAGE_VERSION={{cookiecutter.docker_image_version}}'') \<and>
         ((process_text_content U l p = l)
            = list_all (\<lambda>(pat, r). \<not> re_search U pat None l) env_rules)"
proof -
  have d: "process_text_content U c p = apply_rules U env_rules c" for c
    by (rule dispatch_env[OF assms])
  have dm: "(\<lambda>l. process_text_content U l p) = apply_rules U env_rules"
    by (rule ext) (rule d)
  show ?thesis
    unfolding dm unfolding d
    using apply_rules_lines[OF env_rules_simple, of ls U] env_image_name[of U]
      env_user_name[of w U] env_image_version[of x y z U] env_unchanged_iff[of U l]
    by blast
qed

theorem env_file_lines_witness:
  "name (rel [S ''.env'']) = S ''.env'' \<and>
   list_all (word_char ascii_ucd) (S ''alice'') \<and>
   list_all (is_decimal ascii_ucd) (S ''12'') \<and>
   list_all (\<lambda>(pat, r). \<not> re_search ascii_ucd pat None (S ''FOO=bar'')) env_rules \<and>
   process_text_content ascii_ucd
     (join_with [10]
        [S ''IMAGE_NAME=template'', S ''USER_NAME=alice'', S ''IMAGE_VERSION=v12.0.3'',
         S ''FOO=bar''])
     (rel [S ''.env''])
   = join_with [10]
        [S ''IMAGE_NAME={{cookiecutter.docker_image_name}}'',
         S ''USER_NAME={{cookiecutter.user_name}}'',
         S ''IMAGE_VERSION={{cookiecutter.docker_image_version}}'', S ''FOO=bar'']"
  using env_file_lines[of "rel [S ''.env'']"
      "[S ''IMAGE_NAME=template'', S ''USER_NAME=alice'', S ''IMAGE_VERSION=v12.0.3'', S ''FOO=bar'']"
      ascii_ucd "S ''alice''" "S ''12''" "S ''0''" "S ''3''" "S ''FOO=bar''"]
  by (simp add: content_eval env_rules_def)

text \<open>
  C6 as stated fails: the lines \<open>USER_NAME=alice-bob\<close>,
  \<open># USER_NAME=alice is the default\<close> and \<open>XIMAGE_NAME=template2\<close> are instances of
  none of the three patterns, and each is changed, because \<open>re.sub\<close> replaces an
  occurrence wherever it stands in the line.
\<close>

theorem env_occurrence_inside_line:
  "list_all (\<lambda>(pat, r). \<not> whole_line ascii_ucd pat (S ''USER_NAME=alice-bob'')) env_rules \<and>
   process_text_content ascii_ucd (S ''USER_NAME=alice-bob'') (rel [S ''.env''])
     = S ''USER_NAME={{cookiecutter.user_name}}-bob'' \<and>
   list_all (\<lambda>(pat, r). \<not> whole_line ascii_ucd pat (S ''# USER_NAME=alice is the default''))
     env_rules \<and>
   process_text_content ascii_ucd (S ''# USER_NAME=alice is the default'') (rel [S ''.env''])
     = S ''# USER_NAME={{cookiecutter.user_name}} is the default'' \<and>
   list_all (\<lambda>(pat, r). \<not> whole_line ascii_ucd pat (S ''XIMAGE_NAME=template2'')) env_rules \<and>
   process_text_content ascii_ucd (S ''XIMAGE_NAME=template2'') (rel [S ''.env''])
     = S ''XIMAGE_NAME={{cookiecutter.docker_image_name}}2''"
  by (simp add: content_eval env_rules_def whole_line_def)

end
